theory Spec2Isabelle
  imports Complex_Main
begin

chapter \<open>The dashboard of the role-based agent system\<close>

text \<open>
  The sources are the Next.js dashboard of the system: its API route handlers
  and its React components. Each handler is embedded as a function from the
  request and the module's state to the response and the new state; each
  component as its state, the guards under which it renders a button, and the
  handler the button calls.
\<close>

section \<open>Definitions\<close>

subsection \<open>Supervisor state: \<^verbatim>\<open>components/boss-state-manager.tsx\<close>\<close>

text \<open>
  The component uses \<^verbatim>\<open>BossState\<close>, imported from \<^verbatim>\<open>@/lib/types\<close>, as an
  enum; its members are the nine keys of \<^verbatim>\<open>STATE_DESCRIPTIONS\<close> and
  \<^verbatim>\<open>STATE_ACTIONS\<close>.
\<close>

datatype BossState =
  IDLE | AWAKE | THINKING | RETHINK | EXECUTING | RESEARCHING | REFLECTING | RESTART | STOP

text \<open>The table \<^verbatim>\<open>STATE_ACTIONS\<close>, line by line.\<close>

fun STATE_ACTIONS :: "BossState \<Rightarrow> BossState list" where
  "STATE_ACTIONS IDLE = [AWAKE, STOP, RESTART]"
| "STATE_ACTIONS AWAKE = [THINKING, EXECUTING, RESEARCHING, IDLE, STOP]"
| "STATE_ACTIONS THINKING = [EXECUTING, RESEARCHING, RETHINK, REFLECTING, IDLE]"
| "STATE_ACTIONS RETHINK = [THINKING, EXECUTING, REFLECTING, IDLE]"
| "STATE_ACTIONS EXECUTING = [THINKING, REFLECTING, IDLE, AWAKE]"
| "STATE_ACTIONS RESEARCHING = [THINKING, EXECUTING, REFLECTING, IDLE]"
| "STATE_ACTIONS REFLECTING = [THINKING, IDLE, AWAKE]"
| "STATE_ACTIONS RESTART = [IDLE, AWAKE]"
| "STATE_ACTIONS STOP = []"

text \<open>
  \<^verbatim>\<open>SystemOverview.boss_state\<close> is a string. \<open>Member s\<close> is the string that is
  the value of the enum member \<open>s\<close>; \<open>Foreign x\<close> is any other string \<open>x\<close>
  (the mock overview starts with \<^verbatim>\<open>'ACTIVE'\<close>, which is no member).
\<close>

datatype state_value = Member BossState | Foreign string

text \<open>
  \<^verbatim>\<open>const possibleActions = STATE_ACTIONS[currentState as BossState] || []\<close>:
  a string that is no key of the table yields the empty list.
\<close>

fun possibleActions :: "state_value \<Rightarrow> BossState list" where
  "possibleActions (Member s) = STATE_ACTIONS s"
| "possibleActions (Foreign x) = []"

record history_entry =
  entry_state :: BossState
  entry_timestamp :: int
  entry_duration :: int

text \<open>
  The actions of \<^verbatim>\<open>handleTaskAction\<close> in \<^verbatim>\<open>components/task-management.tsx\<close>,
  and the toasts the two components show.
\<close>

datatype task_action = retry | cancel

datatype toast = StateChanged BossState | StateChangeFailed | TaskUpdated task_action | ActionFailed task_action

text \<open>What both components keep: \<^verbatim>\<open>isLoading\<close> and the toasts shown so far.\<close>

record page =
  isLoading :: bool
  toasts :: "toast list"

text \<open>
  The component's state: the \<^verbatim>\<open>boss_state\<close> of \<^verbatim>\<open>overview\<close> (the update
  \<^verbatim>\<open>{...prev, boss_state: newState}\<close> keeps every other field) and
  \<^verbatim>\<open>stateHistory\<close>. Timestamps are instants in milliseconds.
\<close>

record boss_ui = page +
  boss_state :: state_value
  stateHistory :: "history_entry list"

text \<open>
  The initial state at mount time \<open>t\<close>: the overview is \<^verbatim>\<open>mockSystemOverview\<close>
  of \<^verbatim>\<open>lib/mock-data.ts\<close>, the history the four literal entries.
\<close>

definition initial_boss_ui :: "int \<Rightarrow> boss_ui" where
  "initial_boss_ui t =
     \<lparr>isLoading = False, toasts = [], boss_state = Foreign ''ACTIVE'',
      stateHistory =
        [\<lparr>entry_state = IDLE, entry_timestamp = t - 3600000, entry_duration = 1800\<rparr>,
         \<lparr>entry_state = AWAKE, entry_timestamp = t - 1800000, entry_duration = 1800\<rparr>,
         \<lparr>entry_state = THINKING, entry_timestamp = t - 900000, entry_duration = 600\<rparr>,
         \<lparr>entry_state = EXECUTING, entry_timestamp = t - 300000, entry_duration = 300\<rparr>]\<rparr>"

text \<open>
  \<^verbatim>\<open>handleStateChange(newState)\<close>, from the call to the end of its \<^verbatim>\<open>finally\<close>
  block. The awaited timer always resolves, so the \<^verbatim>\<open>catch\<close> branch is not
  taken: the overview gets \<open>newState\<close>, the history one more entry stamped
  \<open>now\<close>, a toast is shown, and \<^verbatim>\<open>isLoading\<close> is false again. The handler reads
  neither the current state nor \<^verbatim>\<open>STATE_ACTIONS\<close>.
\<close>

definition handleStateChange :: "int \<Rightarrow> BossState \<Rightarrow> boss_ui \<Rightarrow> boss_ui" where
  "handleStateChange now newState ui =
     ui\<lparr>boss_state := Member newState,
        stateHistory := stateHistory ui @
          [\<lparr>entry_state = newState, entry_timestamp = now, entry_duration = 0\<rparr>],
        toasts := toasts ui @ [StateChanged newState],
        isLoading := False\<rparr>"

text \<open>
  What a user of the rendered page can do: one button per element of
  \<^verbatim>\<open>possibleActions\<close>, disabled while \<^verbatim>\<open>isLoading\<close>, each calling
  \<^verbatim>\<open>handleStateChange(action)\<close>.
\<close>

inductive boss_click :: "boss_ui \<Rightarrow> boss_ui \<Rightarrow> bool" where
  click_action:
    "a \<in> set (possibleActions (boss_state ui)) \<Longrightarrow> \<not> isLoading ui \<Longrightarrow>
     boss_click ui (handleStateChange now a ui)"

subsection \<open>JSON values and JavaScript helpers\<close>

text \<open>
  A parsed JSON value. A number is kept at its exact value; an object is the
  list of its members in the order of the text.
\<close>

datatype json =
  JNull | JBool bool | JNum rat | JStr string | JArr "json list" | JObj "(string \<times> json) list"

text \<open>\<^verbatim>\<open>await request.json()\<close> either throws (\<open>NoJson\<close>) or yields a value.\<close>

datatype request_body = NoJson | Json json

text \<open>A natural number in a template literal: its decimal digits.\<close>

definition digit :: "nat \<Rightarrow> char" where
  "digit d = ''0123456789'' ! d"

fun decimal :: "nat \<Rightarrow> string" where
  "decimal n = (if n < 10 then [digit n] else decimal (n div 10) @ [digit (n mod 10)])"

declare decimal.simps [simp del]

text \<open>
  The own enumerable properties an object spread \<^verbatim>\<open>...v\<close> copies: the members
  of an object, the indexed elements of an array, the indexed characters of a
  string, and nothing for a number, a boolean or \<^verbatim>\<open>null\<close>.
\<close>

definition indexed :: "'a list \<Rightarrow> (string \<times> 'a) list" where
  "indexed xs = zip (map decimal [0..<length xs]) xs"

fun spread :: "json \<Rightarrow> (string \<times> json) list" where
  "spread (JObj kvs) = kvs"
| "spread (JArr xs) = indexed xs"
| "spread (JStr s) = indexed (map (\<lambda>c. JStr [c]) s)"
| "spread v = []"

text \<open>
  An object as a finite map. Of two members with one key the later one stays,
  in \<^verbatim>\<open>JSON.parse\<close> as in an object literal.
\<close>

definition object_of :: "(string \<times> json) list \<Rightarrow> (string \<rightharpoonup> json)" where
  "object_of kvs = map_of (rev kvs)"

text \<open>
  \<^verbatim>\<open>parseInt(s)\<close> with no radix: leading white space is skipped, then a sign,
  then \<^verbatim>\<open>0x\<close> or \<^verbatim>\<open>0X\<close> selects radix 16, then the longest run of digits of
  the radix is read; with no digit the result is \<^verbatim>\<open>NaN\<close> (\<open>None\<close>). The
  value is exact.

  The white space \<^verbatim>\<open>parseInt\<close> skips is JavaScript's: TAB, LF, VT, FF, CR and
  the space; and beyond ASCII, read here in their UTF-8 bytes, U+00A0 (two
  bytes) and U+1680, U+2000 to U+200A, U+2028, U+2029, U+202F, U+205F, U+3000
  and U+FEFF (three bytes each).
\<close>

definition is_space1 :: "char \<Rightarrow> bool" where
  "is_space1 a = (of_char a \<in> {9, 10, 11, 12, 13, 32 :: nat})"

definition is_space2 :: "char \<Rightarrow> char \<Rightarrow> bool" where
  "is_space2 a b = (of_char a = (194 :: nat) \<and> of_char b = (160 :: nat))"

definition is_space3 :: "char \<Rightarrow> char \<Rightarrow> char \<Rightarrow> bool" where
  "is_space3 a b c =
     (let x = (of_char a :: nat); y = (of_char b :: nat); z = (of_char c :: nat) in
      (x = 225 \<and> y = 154 \<and> z = 128)
      \<or> (x = 226 \<and> y = 128 \<and> ((128 \<le> z \<and> z \<le> 138) \<or> z = 168 \<or> z = 169 \<or> z = 175))
      \<or> (x = 226 \<and> y = 129 \<and> z = 159)
      \<or> (x = 227 \<and> y = 128 \<and> z = 128)
      \<or> (x = 239 \<and> y = 187 \<and> z = 191))"

fun skip_space :: "string \<Rightarrow> string" where
  "skip_space (a # b # c # s) =
     (if is_space1 a then skip_space (b # c # s)
      else if is_space2 a b then skip_space (c # s)
      else if is_space3 a b c then skip_space s
      else a # b # c # s)"
| "skip_space [a, b] =
     (if is_space1 a then skip_space [b] else if is_space2 a b then [] else [a, b])"
| "skip_space [a] = (if is_space1 a then [] else [a])"
| "skip_space [] = []"

definition digit_value :: "char \<Rightarrow> nat option" where
  "digit_value c =
     (let k = (of_char c :: nat) in
      if 48 \<le> k \<and> k \<le> 57 then Some (k - 48)
      else if 97 \<le> k \<and> k \<le> 122 then Some (k - 87)
      else if 65 \<le> k \<and> k \<le> 90 then Some (k - 55)
      else None)"

definition is_digit :: "nat \<Rightarrow> char \<Rightarrow> bool" where
  "is_digit radix c = (case digit_value c of None \<Rightarrow> False | Some d \<Rightarrow> d < radix)"

definition digits_value :: "nat \<Rightarrow> string \<Rightarrow> nat" where
  "digits_value radix ds =
     foldl (\<lambda>acc c. acc * radix + (case digit_value c of None \<Rightarrow> 0 | Some d \<Rightarrow> d)) 0 ds"

fun strip_sign :: "string \<Rightarrow> bool \<times> string" where
  "strip_sign (c # cs) =
     (if c = CHR ''-'' then (True, cs) else if c = CHR ''+'' then (False, cs) else (False, c # cs))"
| "strip_sign [] = (False, [])"

fun strip_radix :: "string \<Rightarrow> nat \<times> string" where
  "strip_radix (c # d # cs) =
     (if c = CHR ''0'' \<and> (d = CHR ''x'' \<or> d = CHR ''X'') then (16, cs) else (10, c # d # cs))"
| "strip_radix cs = (10, cs)"

definition parseInt :: "string \<Rightarrow> int option" where
  "parseInt s =
     (let (negative, s1) = strip_sign (skip_space s);
          (radix, s2) = strip_radix s1;
          ds = takeWhile (is_digit radix) s2
      in if ds = [] then None
         else Some (if negative then - int (digits_value radix ds) else int (digits_value radix ds)))"

text \<open>
  \<^verbatim>\<open>xs.slice(0, end)\<close> for an integer \<open>end\<close>: a negative end counts from the
  end of the array.
\<close>

definition slice0 :: "int \<Rightarrow> 'a list \<Rightarrow> 'a list" where
  "slice0 e xs = (if e < 0 then take (nat (int (length xs) + e)) xs else take (nat e) xs)"

subsection \<open>\<^verbatim>\<open>POST /api/system/boss-state\<close>\<close>







subsection \<open>\<^verbatim>\<open>/api/tasks\<close>\<close>

text \<open>
  \<^verbatim>\<open>TaskType\<close> of \<^verbatim>\<open>lib/types.ts\<close>, the element type of \<^verbatim>\<open>mockTasks\<close>. Priority
  and status are strings at run time. The fields carry the suffix \<open>_t\<close>.
\<close>

record TaskType =
  id_t :: string
  title_t :: string
  description_t :: string
  priority_t :: string
  status_t :: string
  assigned_agent_t :: "string option"
  capabilities_required_t :: "string list"
  created_at_t :: string
  updated_at_t :: "string option"
  completed_at_t :: "string option"

text \<open>
  \<^verbatim>\<open>GET /api/tasks\<close>, given the module's task list and the query parameters
  \<^verbatim>\<open>status\<close> and \<^verbatim>\<open>limit\<close> (\<open>None\<close> when absent). An empty \<^verbatim>\<open>status\<close> is
  falsy and filters nothing; an absent or empty \<^verbatim>\<open>limit\<close> is \<^verbatim>\<open>'100'\<close>; a
  limit that parses to \<^verbatim>\<open>NaN\<close> or to 0 is falsy and cuts nothing. The
  handler neither sorts nor reads a priority.
\<close>

definition GET_tasks :: "TaskType list \<Rightarrow> string option \<Rightarrow> string option \<Rightarrow> TaskType list" where
  "GET_tasks mockTasks status_param limit_param =
     (let limit = parseInt (case limit_param of None \<Rightarrow> ''100''
                            | Some l \<Rightarrow> if l = [] then ''100'' else l);
          filteredTasks =
            (case status_param of None \<Rightarrow> mockTasks
             | Some s \<Rightarrow> if s = [] then mockTasks else filter (\<lambda>task. status_t task = s) mockTasks)
      in case limit of None \<Rightarrow> filteredTasks
         | Some l \<Rightarrow> if l = 0 then filteredTasks else slice0 l filteredTasks)"

text \<open>
  \<^verbatim>\<open>POST /api/tasks\<close>. The defaults of the object literal, for the clock
  readings \<^verbatim>\<open>Date.now()\<close> (\<open>now\<close>) and \<^verbatim>\<open>new Date().toISOString()\<close>
  (\<open>stamp\<close>):
\<close>

definition task_defaults :: "nat \<Rightarrow> string \<Rightarrow> (string \<times> json) list" where
  "task_defaults now stamp =
     [(''id'', JStr (''task-'' @ decimal now)),
      (''created_at'', JStr stamp),
      (''status'', JStr ''pending''),
      (''retry_count'', JNum 0),
      (''max_retries'', JNum 3)]"

datatype tasks_response = Created "string \<rightharpoonup> json" | FailedToCreateTask500

text \<open>
  The handler builds \<^verbatim>\<open>{id, created_at, status, retry_count, max_retries,
  ...taskData}\<close> and answers it with status 201. It checks no field and does
  not touch the task list, which is returned as it was.
\<close>

fun POST_tasks ::
  "nat \<Rightarrow> string \<Rightarrow> request_body \<Rightarrow> TaskType list \<Rightarrow> tasks_response \<times> TaskType list" where
  "POST_tasks now stamp NoJson mockTasks = (FailedToCreateTask500, mockTasks)"
| "POST_tasks now stamp (Json taskData) mockTasks =
     (Created (object_of (task_defaults now stamp @ spread taskData)), mockTasks)"

subsection \<open>Task list: \<^verbatim>\<open>components/task-management.tsx\<close>\<close>

text \<open>
  The enum \<^verbatim>\<open>TaskStatus\<close> and the type \<^verbatim>\<open>TaskDefinition\<close> are imported from
  \<^verbatim>\<open>@/lib/types\<close>; the members are those of \<^verbatim>\<open>getStatusIcon\<close>, the fields
  those the component reads (\<open>task_id\<close> is the field \<^verbatim>\<open>id\<close>).
\<close>

datatype TaskStatus = PENDING | RUNNING | COMPLETED | FAILED | CANCELLED

record TaskDefinition =
  task_id :: string
  name :: string
  description :: string
  status :: TaskStatus
  priority :: int
  created_at :: string
  assigned_agent_id :: "string option"
  started_at :: "string option"
  completed_at :: "string option"
  retry_count :: int
  max_retries :: int
  error_message :: "string option"

record task_ui = page +
  tasks :: "TaskDefinition list"

text \<open>
  \<^verbatim>\<open>handleTaskAction(taskId, action)\<close>, from the call to the end of its
  \<^verbatim>\<open>finally\<close> block: every task with the id is rewritten, whatever its status
  and counters are. The handler has no guard of its own.
\<close>

fun apply_action :: "task_action \<Rightarrow> TaskDefinition \<Rightarrow> TaskDefinition" where
  "apply_action retry task = task\<lparr>status := PENDING, retry_count := retry_count task + 1\<rparr>"
| "apply_action cancel task = task\<lparr>status := CANCELLED\<rparr>"

definition handleTaskAction :: "string \<Rightarrow> task_action \<Rightarrow> task_ui \<Rightarrow> task_ui" where
  "handleTaskAction taskId action ui =
     ui\<lparr>tasks := map (\<lambda>task. if task_id task = taskId then apply_action action task else task)
                       (tasks ui),
        toasts := toasts ui @ [TaskUpdated action],
        isLoading := False\<rparr>"

text \<open>The conditions under which a task's row renders its two buttons.\<close>

definition retry_rendered :: "TaskDefinition \<Rightarrow> bool" where
  "retry_rendered task = (status task = FAILED \<and> retry_count task < max_retries task)"

definition cancel_rendered :: "TaskDefinition \<Rightarrow> bool" where
  "cancel_rendered task = (status task = PENDING \<or> status task = RUNNING)"

text \<open>
  What a user of the rendered page can do: click a button that is rendered
  and not disabled. Rows are rendered for the filtered tasks, a part of
  \<^verbatim>\<open>tasks\<close>; the relation allows a click on the row of any task.
\<close>

inductive task_click :: "task_ui \<Rightarrow> task_ui \<Rightarrow> bool" where
  click_retry:
    "task \<in> set (tasks ui) \<Longrightarrow> retry_rendered task \<Longrightarrow> \<not> isLoading ui \<Longrightarrow>
     task_click ui (handleTaskAction (task_id task) retry ui)"
| click_cancel:
    "task \<in> set (tasks ui) \<Longrightarrow> cancel_rendered task \<Longrightarrow> \<not> isLoading ui \<Longrightarrow>
     task_click ui (handleTaskAction (task_id task) cancel ui)"

subsection \<open>Agent hierarchy: the second module of \<^verbatim>\<open>app/api/agents/route.ts\<close>\<close>

text \<open>
  An agent record of \<^verbatim>\<open>mockAgentHierarchy\<close> (\<open>agent_status\<close> is the field
  \<^verbatim>\<open>status\<close>). \<^verbatim>\<open>last_active\<close> is the instant, in milliseconds, that the
  ISO string denotes; the performance score is kept at its exact value.
\<close>

record agent =
  agent_id :: nat
  display_name :: string
  agent_name :: string
  role :: string
  agent_status :: string
  completed_tasks :: nat
  capabilities :: "string list"
  performance_score :: rat
  last_active :: int
  current_task :: "string option"

record stats =
  active_agents :: nat
  idle_agents :: nat
  busy_agents :: nat
  average_performance :: rat
  total_completed_tasks :: nat

record hierarchy =
  boss_agent :: agent
  subordinate_agents :: "agent list"
  total_agents :: nat
  next_agent_id :: nat
  hierarchy_stats :: stats

text \<open>The module's initial state, loaded at time \<open>t\<close>.\<close>

definition mockAgentHierarchy :: "int \<Rightarrow> hierarchy" where
  "mockAgentHierarchy t =
     \<lparr>boss_agent =
        \<lparr>agent_id = 0, display_name = ''Boss (Agent 0)'', agent_name = ''Boss Agent'',
         role = ''boss'', agent_status = ''active'', completed_tasks = 15,
         capabilities = [''strategic_decision_making'', ''task_delegation'',
           ''system_orchestration'', ''agent_management'', ''priority_assessment'',
           ''resource_allocation''],
         performance_score = 1, last_active = t,
         current_task = Some ''Monitoring system operations''\<rparr>,
      subordinate_agents =
        [\<lparr>agent_id = 1, display_name = ''Agent 1'', agent_name = ''Trading Agent'',
          role = ''subordinate'', agent_status = ''idle'', completed_tasks = 8,
          capabilities = [''task_execution'', ''problem_solving'', ''data_processing'',
            ''market_analysis'', ''order_execution'', ''risk_management''],
          performance_score = 85 / 100, last_active = t - 300000, current_task = None\<rparr>,
         \<lparr>agent_id = 2, display_name = ''Agent 2'', agent_name = ''Analysis Agent'',
          role = ''subordinate'', agent_status = ''busy'', completed_tasks = 12,
          capabilities = [''task_execution'', ''problem_solving'', ''data_processing'',
            ''data_analysis'', ''pattern_recognition'', ''reporting''],
          performance_score = 92 / 100, last_active = t,
          current_task = Some ''Analyzing market trends''\<rparr>],
      total_agents = 3,
      next_agent_id = 3,
      hierarchy_stats =
        \<lparr>active_agents = 2, idle_agents = 1, busy_agents = 1,
         average_performance = 92 / 100, total_completed_tasks = 35\<rparr>\<rparr>"

text \<open>
  The record both branches create, for the id \<open>n\<close>, the name \<open>nm\<close> and the
  clock reading \<open>t\<close>.
\<close>

definition newAgent :: "nat \<Rightarrow> string \<Rightarrow> int \<Rightarrow> agent" where
  "newAgent n nm t =
     \<lparr>agent_id = n, display_name = ''Agent '' @ decimal n, agent_name = nm,
      role = ''subordinate'', agent_status = ''idle'', completed_tasks = 0,
      capabilities = [''task_execution'', ''problem_solving'', ''data_processing''],
      performance_score = 8 / 10, last_active = t, current_task = None\<rparr>"

text \<open>The branch \<^verbatim>\<open>create_agent\<close>, after its check of the name.\<close>

definition create_agent :: "string \<Rightarrow> int \<Rightarrow> hierarchy \<Rightarrow> hierarchy" where
  "create_agent nm t h =
     h\<lparr>subordinate_agents := subordinate_agents h @ [newAgent (next_agent_id h) nm t],
       total_agents := total_agents h + 1,
       next_agent_id := next_agent_id h + 1,
       hierarchy_stats :=
         (hierarchy_stats h)\<lparr>idle_agents := idle_agents (hierarchy_stats h) + 1\<rparr>\<rparr>"

text \<open>
  The loop that adds agents, \<^verbatim>\<open>for (let i = 0; i < toAdd; i++)\<close>, from the
  counter \<open>i\<close> on; \<open>clk i\<close> is the clock reading of round \<open>i\<close>.
\<close>

definition add_auto_agent :: "int \<Rightarrow> hierarchy \<Rightarrow> hierarchy" where
  "add_auto_agent t h =
     h\<lparr>subordinate_agents := subordinate_agents h @
         [newAgent (next_agent_id h) (''Auto Agent '' @ decimal (next_agent_id h)) t],
       next_agent_id := next_agent_id h + 1\<rparr>"

function add_loop :: "(nat \<Rightarrow> int) \<Rightarrow> nat \<Rightarrow> rat \<Rightarrow> hierarchy \<Rightarrow> hierarchy" where
  "add_loop clk i toAdd h =
     (if of_nat i < toAdd then add_loop clk (Suc i) toAdd (add_auto_agent (clk i) h) else h)"
  by pat_completeness auto
termination
proof (relation "measure (\<lambda>(clk, i, toAdd, h). nat \<lceil>toAdd\<rceil> - i)")
  show "wf (measure (\<lambda>(clk, i, toAdd, h). nat \<lceil>toAdd\<rceil> - i))"
    by simp
next
  fix clk :: "nat \<Rightarrow> int" and i :: nat and toAdd :: rat and h :: hierarchy
  assume "of_nat i < toAdd"
  then have "int i < \<lceil>toAdd\<rceil>"
    by (simp add: less_ceiling_iff)
  then show "((clk, Suc i, toAdd, add_auto_agent (clk i) h), (clk, i, toAdd, h))
             \<in> measure (\<lambda>(clk, i, toAdd, h). nat \<lceil>toAdd\<rceil> - i)"
    by simp
qed

declare add_loop.simps [simp del]

text \<open>
  \<^verbatim>\<open>findIndex\<close> by id followed by \<^verbatim>\<open>splice(agentIndex, 1)\<close>: the first agent
  with the id is taken out; with no such agent the list stays.
\<close>

fun remove_agent :: "nat \<Rightarrow> agent list \<Rightarrow> agent list" where
  "remove_agent k [] = []"
| "remove_agent k (a # as) = (if agent_id a = k then as else a # remove_agent k as)"

text \<open>
  The loop that removes agents,
  \<^verbatim>\<open>for (let i = 0; i < Math.min(toRemove, idleAgents.length); i++)\<close>, from the
  counter \<open>i\<close> on, for a finite \<open>toRemove\<close>.
\<close>

function remove_loop :: "nat \<Rightarrow> rat \<Rightarrow> agent list \<Rightarrow> agent list \<Rightarrow> agent list" where
  "remove_loop i toRemove idleAgents subs =
     (if of_nat i < min toRemove (of_nat (length idleAgents))
      then remove_loop (Suc i) toRemove idleAgents (remove_agent (agent_id (idleAgents ! i)) subs)
      else subs)"
  by pat_completeness auto
termination
  by (relation "measure (\<lambda>(i, toRemove, idleAgents, subs). length idleAgents - i)") auto

declare remove_loop.simps [simp del]

text \<open>
  The end of the branch \<^verbatim>\<open>scale_agents\<close>: the counter and the statistics are
  computed anew from the list.
\<close>

definition recount :: "hierarchy \<Rightarrow> hierarchy" where
  "recount h =
     (let subs = subordinate_agents h; total = length subs + 1 in
      h\<lparr>total_agents := total,
        hierarchy_stats :=
          \<lparr>active_agents = length (filter (\<lambda>a. agent_status a = ''active'') subs) + 1,
           idle_agents = length (filter (\<lambda>a. agent_status a = ''idle'') subs),
           busy_agents = length (filter (\<lambda>a. agent_status a = ''busy'') subs),
           average_performance =
             foldl (\<lambda>sum a. sum + performance_score a) 1 subs / of_nat total,
           total_completed_tasks = foldl (\<lambda>sum a. sum + completed_tasks a) 15 subs\<rparr>\<rparr>)"

text \<open>
  A number of a JSON body: a finite value, or an infinity (a literal beyond the
  range, such as \<^verbatim>\<open>1e999\<close>). JSON has no \<^verbatim>\<open>NaN\<close>.
\<close>

datatype js_number = Finite rat | PosInfinity | NegInfinity

text \<open>
  The branch \<^verbatim>\<open>scale_agents\<close>, after its check of the type. For the target
  \<^verbatim>\<open>Infinity\<close> the condition \<^verbatim>\<open>i < toAdd\<close> never fails and the handler does
  not return (\<open>None\<close>); for \<^verbatim>\<open>-Infinity\<close> the minimum of \<^verbatim>\<open>toRemove\<close> and the
  number of idle agents is that number. The differences are exact; rounding
  them as doubles leaves the number of rounds of either loop as it is, for
  counts below \<open>2^53\<close>.
\<close>

definition scale_agents :: "(nat \<Rightarrow> int) \<Rightarrow> js_number \<Rightarrow> hierarchy \<Rightarrow> hierarchy option" where
  "scale_agents clk target_count h =
     (let subs = subordinate_agents h;
          currentSubordinates = length subs;
          idleAgents = filter (\<lambda>a. agent_status a = ''idle'') subs
      in case target_count of
           PosInfinity \<Rightarrow> None
         | NegInfinity \<Rightarrow>
             Some (recount (h\<lparr>subordinate_agents :=
               remove_loop 0 (of_nat (length idleAgents)) idleAgents subs\<rparr>))
         | Finite q \<Rightarrow>
             if q > of_nat currentSubordinates
             then Some (recount (add_loop clk 0 (q - of_nat currentSubordinates) h))
             else if q < of_nat currentSubordinates
             then Some (recount (h\<lparr>subordinate_agents :=
               remove_loop 0 (of_nat currentSubordinates - q) idleAgents subs\<rparr>))
             else Some (recount h))"

text \<open>
  The request body after \<^verbatim>\<open>const { action, agent_name, target_count } = body\<close>.
  The destructuring throws for a body that is no JSON or is \<^verbatim>\<open>null\<close>
  (\<open>NoFields\<close>). \<open>action\<close> and \<open>agent_name\<close> are \<open>None\<close> when the
  field is absent; \<open>target_count\<close> is \<open>None\<close> when the field is absent or no
  number. Names are strings.
\<close>

datatype hierarchy_body =
  NoFields
  | Fields (action: "string option") (agent_name_field: "string option")
      (target_count: "js_number option")

datatype hierarchy_message = CreatedAgent nat string | ScaledTo js_number

datatype hierarchy_response =
  Done hierarchy_message hierarchy
  | AgentNameRequired400 | TargetCountNotANumber400 | InvalidAction400 | InternalServerError500

text \<open>
  \<^verbatim>\<open>POST\<close> of the module: the response and the module's state afterwards, or
  \<open>None\<close> when the handler does not return.
\<close>

definition POST_hierarchy ::
  "(nat \<Rightarrow> int) \<Rightarrow> hierarchy_body \<Rightarrow> hierarchy \<Rightarrow> (hierarchy_response \<times> hierarchy) option" where
  "POST_hierarchy clk body h =
     (case body of
        NoFields \<Rightarrow> Some (InternalServerError500, h)
      | Fields act nm tc \<Rightarrow>
          if act = Some ''create_agent'' then
            (case nm of
               None \<Rightarrow> Some (AgentNameRequired400, h)
             | Some n \<Rightarrow>
                 if n = [] then Some (AgentNameRequired400, h)
                 else let h' = create_agent n (clk 0) h
                      in Some (Done (CreatedAgent (next_agent_id h) n) h', h'))
          else if act = Some ''scale_agents'' then
            (case tc of
               None \<Rightarrow> Some (TargetCountNotANumber400, h)
             | Some n \<Rightarrow>
                 (case scale_agents clk n h of
                    None \<Rightarrow> None
                  | Some h' \<Rightarrow> Some (Done (ScaledTo n) h', h')))
          else Some (InvalidAction400, h))"

text \<open>
  The states the module can be in: the initial one, and the state after every
  request that returns. In \<open>reachable_steady\<close> the clock of a request does not
  run backwards and is not behind a time the state records.
\<close>

inductive reachable :: "hierarchy \<Rightarrow> bool" where
  reachable_init: "reachable (mockAgentHierarchy t)"
| reachable_POST: "reachable h \<Longrightarrow> POST_hierarchy clk body h = Some (r, h') \<Longrightarrow> reachable h'"

definition steady :: "(nat \<Rightarrow> int) \<Rightarrow> hierarchy \<Rightarrow> bool" where
  "steady clk h \<longleftrightarrow>
     (\<forall>i j. i \<le> j \<longrightarrow> clk i \<le> clk j) \<and>
     (\<forall>a \<in> set (subordinate_agents h). last_active a \<le> clk 0)"

inductive reachable_steady :: "hierarchy \<Rightarrow> bool" where
  steady_init: "reachable_steady (mockAgentHierarchy t)"
| steady_POST:
    "reachable_steady h \<Longrightarrow> steady clk h \<Longrightarrow> POST_hierarchy clk body h = Some (r, h') \<Longrightarrow>
     reachable_steady h'"

text \<open>
  For the results: the agents the adding loop creates in \<open>k\<close> rounds, from
  round \<open>i\<close> and the id \<open>n\<close> on; the number of rounds the removing loop
  makes; and the number of agents a scaling to the target \<open>n\<close> takes out, the
  smaller of \<^verbatim>\<open>toRemove\<close>, rounded up, and the number of idle agents.
\<close>

definition auto_agents :: "(nat \<Rightarrow> int) \<Rightarrow> nat \<Rightarrow> nat \<Rightarrow> nat \<Rightarrow> agent list" where
  "auto_agents clk i n k =
     map (\<lambda>j. newAgent (n + j) (''Auto Agent '' @ decimal (n + j)) (clk (i + j))) [0..<k]"

definition rounds :: "rat \<Rightarrow> agent list \<Rightarrow> nat" where
  "rounds r idleAgents = nat \<lceil>min r (of_nat (length idleAgents))\<rceil>"

definition removals :: "js_number \<Rightarrow> hierarchy \<Rightarrow> nat" where
  "removals n h =
     (let idleAgents = filter (\<lambda>a. agent_status a = ''idle'') (subordinate_agents h) in
      case n of
        NegInfinity \<Rightarrow> length idleAgents
      | Finite q \<Rightarrow> min (nat \<lceil>of_nat (length (subordinate_agents h)) - q\<rceil>) (length idleAgents)
      | PosInfinity \<Rightarrow> 0)"

text \<open>
  What holds in every reachable state: ids are unique and below
  \<^verbatim>\<open>next_agent_id\<close>, the counter counts the records and the boss, the boss has
  the id 0. Under a steady clock the idle agents stand in the list in the
  order of their last activity.
\<close>

definition hierarchy_inv :: "hierarchy \<Rightarrow> bool" where
  "hierarchy_inv h \<longleftrightarrow>
     distinct (map agent_id (subordinate_agents h)) \<and>
     (\<forall>a \<in> set (subordinate_agents h). agent_id a < next_agent_id h) \<and>
     total_agents h = length (subordinate_agents h) + 1 \<and>
     agent_id (boss_agent h) = 0"

definition idle_by_age :: "hierarchy \<Rightarrow> bool" where
  "idle_by_age h \<longleftrightarrow>
     sorted (map last_active (filter (\<lambda>a. agent_status a = ''idle'') (subordinate_agents h)))"

subsection \<open>Sample data\<close>

text \<open>
  A pending task without capability constraints, with the given id, priority
  and creation stamp, for the priority scenario; and a task of the task list
  with the given id, status and retry counters.
\<close>

definition pending_task :: "string \<Rightarrow> string \<Rightarrow> string \<Rightarrow> TaskType" where
  "pending_task i p c =
     \<lparr>id_t = i, title_t = i, description_t = [], priority_t = p, status_t = ''PENDING'',
      assigned_agent_t = None, capabilities_required_t = [], created_at_t = c,
      updated_at_t = None, completed_at_t = None\<rparr>"

definition sample_task :: "string \<Rightarrow> TaskStatus \<Rightarrow> int \<Rightarrow> int \<Rightarrow> TaskDefinition" where
  "sample_task i st rc mr =
     \<lparr>task_id = i, name = i, description = [], status = st, priority = 1,
      created_at = ''2025-08-18T00:00:00'', assigned_agent_id = None, started_at = None,
      completed_at = None, retry_count = rc, max_retries = mr, error_message = None\<rparr>"

definition sample_page :: "TaskDefinition list \<Rightarrow> task_ui" where
  "sample_page ts = \<lparr>isLoading = False, toasts = [], tasks = ts\<rparr>"

section \<open>Results\<close>

subsection \<open>Supervisor state\<close>

lemma STOP_only_from_IDLE_AWAKE: "STOP \<in> set (STATE_ACTIONS s) \<longleftrightarrow> s = IDLE \<or> s = AWAKE"
  by (cases s) simp_all

lemma IDLE_successor: "s \<noteq> STOP \<Longrightarrow> s \<noteq> IDLE \<Longrightarrow> IDLE \<in> set (STATE_ACTIONS s)"
  by (cases s) simp_all

lemma boss_click_target:
  assumes "boss_click ui ui'"
  shows "\<exists>s \<in> set (possibleActions (boss_state ui)). boss_state ui' = Member s"
  using assms by (cases rule: boss_click.cases) (auto simp: handleStateChange_def)





text \<open>
  Claim C2, as the code has it. STOP is a direct successor of IDLE and of
  AWAKE only; every other state but STOP has IDLE as a successor, so STOP is
  two transitions away; no transition leaves STOP; the history the dashboard
  shows starts with an IDLE entry.
\<close>

theorem C2_stop_in_transition_table:
  "(STOP \<in> set (STATE_ACTIONS s) \<longleftrightarrow> s = IDLE \<or> s = AWAKE)
   \<and> (s \<noteq> STOP \<longrightarrow> STOP \<in> set (STATE_ACTIONS s)
         \<or> (IDLE \<in> set (STATE_ACTIONS s) \<and> STOP \<in> set (STATE_ACTIONS IDLE)))
   \<and> STATE_ACTIONS STOP = []
   \<and> entry_state (hd (stateHistory (initial_boss_ui t))) = IDLE"
proof -
  have "s \<noteq> STOP \<longrightarrow> STOP \<in> set (STATE_ACTIONS s)
         \<or> (IDLE \<in> set (STATE_ACTIONS s) \<and> STOP \<in> set (STATE_ACTIONS IDLE))"
    by (cases s) simp_all
  moreover have "STOP \<in> set (STATE_ACTIONS s) \<longleftrightarrow> s = IDLE \<or> s = AWAKE"
    by (cases s) simp_all
  ultimately show ?thesis
    by (simp add: initial_boss_ui_def)
qed

theorem C2_stop_in_transition_table_witness:
  "THINKING \<noteq> STOP \<and> STOP \<notin> set (STATE_ACTIONS THINKING)
   \<and> IDLE \<in> set (STATE_ACTIONS THINKING) \<and> STOP \<in> set (STATE_ACTIONS IDLE)
   \<and> STATE_ACTIONS STOP = []
   \<and> entry_state (hd (stateHistory (initial_boss_ui 0))) = IDLE"
  using C2_stop_in_transition_table [of THINKING 0] by simp

text \<open>
  Against claim C2 as stated: THINKING is not terminal and STOP is none of its
  successors; and the state the dashboard starts from is not IDLE.
\<close>

theorem C2_counterexample:
  "THINKING \<noteq> STOP \<and> STOP \<notin> set (STATE_ACTIONS THINKING)
   \<and> boss_state (initial_boss_ui 0) \<noteq> Member IDLE"
  by (simp add: initial_boss_ui_def)

subsection \<open>\<^verbatim>\<open>/api/tasks\<close>\<close>

lemma object_of_append: "object_of (xs @ ys) = object_of xs ++ object_of ys"
  by (simp add: object_of_def map_add_def fun_eq_iff split: option.splits)

lemma object_of_absent: "k \<notin> fst ` set kvs \<Longrightarrow> object_of kvs k = None"
  by (simp add: object_of_def map_of_eq_None_iff)

lemma object_of_distinct:
  "distinct (map fst kvs) \<Longrightarrow> (k, v) \<in> set kvs \<Longrightarrow> object_of kvs k = Some v"
  by (simp add: object_of_def rev_map [symmetric])

lemma object_of_present: "k \<in> fst ` set kvs \<Longrightarrow> \<exists>v. object_of kvs k = Some v"
  unfolding object_of_def
  by (metis (no_types, opaque_lifting) map_of_eq_None_iff not_Some_eq set_rev)

lemma defaults_lookup:
  "object_of (task_defaults now stamp) ''id'' = Some (JStr (''task-'' @ decimal now))"
  "object_of (task_defaults now stamp) ''created_at'' = Some (JStr stamp)"
  "object_of (task_defaults now stamp) ''status'' = Some (JStr ''pending'')"
  "object_of (task_defaults now stamp) ''retry_count'' = Some (JNum 0)"
  "object_of (task_defaults now stamp) ''max_retries'' = Some (JNum 3)"
  by (simp_all add: object_of_def task_defaults_def)

lemma created_lookup:
  "object_of (task_defaults now stamp @ kvs) k =
     (case object_of kvs k of Some v \<Rightarrow> Some v | None \<Rightarrow> object_of (task_defaults now stamp) k)"
  by (simp add: object_of_append map_add_def)

lemma created_absent:
  "k \<notin> fst ` set kvs \<Longrightarrow>
   object_of (task_defaults now stamp @ kvs) k = object_of (task_defaults now stamp) k"
  by (simp add: created_lookup object_of_absent)

lemma created_present:
  "k \<in> fst ` set kvs \<Longrightarrow> object_of (task_defaults now stamp @ kvs) k = object_of kvs k"
  using object_of_present [of k kvs] by (auto simp: created_lookup)

lemma created_exact:
  "distinct (map fst kvs) \<Longrightarrow> (k, v) \<in> set kvs \<Longrightarrow>
   object_of (task_defaults now stamp @ kvs) k = Some v"
proof -
  assume d: "distinct (map fst kvs)" and kv: "(k, v) \<in> set kvs"
  from kv have "k \<in> fst ` set kvs" by force
  with d kv show ?thesis
    by (simp add: created_present object_of_distinct)
qed

text \<open>
  Claim C3, as the code has it. \<^verbatim>\<open>POST /api/tasks\<close> validates no field and
  fills no queue. Every body that parses, whatever its name, priority and
  \<^verbatim>\<open>max_retries\<close> are, is answered with status 201 and the default record
  overridden by the body's own fields, which come back as they were sent; a
  body without the fields \<^verbatim>\<open>id\<close>, \<^verbatim>\<open>created_at\<close> and \<^verbatim>\<open>status\<close> gets the id
  \<^verbatim>\<open>task-<now>\<close>, the current time and the status \<^verbatim>\<open>'pending'\<close>. The task
  list is left as it was. The one failure is status 500, for a body that does
  not parse.
\<close>

theorem C3_submission_unvalidated:
  "\<exists>m. POST_tasks now stamp (Json body) ts = (Created m, ts)
     \<and> (\<forall>k v. distinct (map fst (spread body)) \<and> (k, v) \<in> set (spread body) \<longrightarrow> m k = Some v)
     \<and> (''id'' \<notin> fst ` set (spread body) \<longrightarrow> m ''id'' = Some (JStr (''task-'' @ decimal now)))
     \<and> (''created_at'' \<notin> fst ` set (spread body) \<longrightarrow> m ''created_at'' = Some (JStr stamp))
     \<and> (''status'' \<notin> fst ` set (spread body) \<longrightarrow> m ''status'' = Some (JStr ''pending''))
     \<and> POST_tasks now stamp NoJson ts = (FailedToCreateTask500, ts)"
proof -
  let ?m = "object_of (task_defaults now stamp @ spread body)"
  have "POST_tasks now stamp (Json body) ts = (Created ?m, ts)"
    by simp
  moreover have
    "\<forall>k v. distinct (map fst (spread body)) \<and> (k, v) \<in> set (spread body) \<longrightarrow> ?m k = Some v"
    by (simp add: created_exact)
  moreover have
    "''id'' \<notin> fst ` set (spread body) \<longrightarrow> ?m ''id'' = Some (JStr (''task-'' @ decimal now))"
    "''created_at'' \<notin> fst ` set (spread body) \<longrightarrow> ?m ''created_at'' = Some (JStr stamp)"
    "''status'' \<notin> fst ` set (spread body) \<longrightarrow> ?m ''status'' = Some (JStr ''pending'')"
    by (simp_all add: created_absent defaults_lookup)
  moreover have "POST_tasks now stamp NoJson ts = (FailedToCreateTask500, ts)"
    by simp
  ultimately show ?thesis
    by blast
qed

text \<open>
  The theorem at a body with an empty name, an unknown priority and a negative
  \<^verbatim>\<open>max_retries\<close>: it is created, with exactly these fields.
\<close>

theorem C3_submission_unvalidated_witness:
  "\<exists>m. POST_tasks 5 ''2025-08-18T00:00:00.000Z''
          (Json (JObj [(''name'', JStr []), (''priority'', JStr ''SOON''),
                       (''max_retries'', JNum (- 1))])) []
        = (Created m, [])
     \<and> m ''name'' = Some (JStr [])
     \<and> m ''priority'' = Some (JStr ''SOON'')
     \<and> m ''max_retries'' = Some (JNum (- 1))
     \<and> m ''id'' = Some (JStr ''task-5'')
     \<and> m ''status'' = Some (JStr ''pending'')"
proof -
  let ?kvs = "[(''name'', JStr []), (''priority'', JStr ''SOON''), (''max_retries'', JNum (- 1))]"
  from C3_submission_unvalidated [of 5 "''2025-08-18T00:00:00.000Z''" "JObj ?kvs" "[]"]
  obtain m where
    post: "POST_tasks 5 ''2025-08-18T00:00:00.000Z'' (Json (JObj ?kvs)) [] = (Created m, [])"
    and given: "\<forall>k v. distinct (map fst (spread (JObj ?kvs))) \<and> (k, v) \<in> set (spread (JObj ?kvs))
                 \<longrightarrow> m k = Some v"
    and fresh: "''id'' \<notin> fst ` set (spread (JObj ?kvs)) \<longrightarrow> m ''id'' = Some (JStr (''task-'' @ decimal 5))"
    and pending: "''status'' \<notin> fst ` set (spread (JObj ?kvs)) \<longrightarrow> m ''status'' = Some (JStr ''pending'')"
    by blast
  have "m ''name'' = Some (JStr [])" "m ''priority'' = Some (JStr ''SOON'')"
    "m ''max_retries'' = Some (JNum (- 1))"
    using given by simp_all
  moreover have "m ''id'' = Some (JStr ''task-5'')"
    using fresh by (simp add: decimal.simps digit_def)
  moreover have "m ''status'' = Some (JStr ''pending'')"
    using pending by simp
  ultimately show ?thesis
    using post by blast
qed

text \<open>
  Against claim C3 as stated: a specification with an empty name, an unknown
  priority and \<^verbatim>\<open>max_retries = -1\<close> is not rejected; the answer is the created
  task, carrying these fields.
\<close>

theorem C3_counterexample:
  "(case fst (POST_tasks 5 ''2025-08-18T00:00:00.000Z''
               (Json (JObj [(''name'', JStr []), (''priority'', JStr ''SOON''),
                            (''max_retries'', JNum (- 1))])) []) of
      Created m \<Rightarrow> m ''name'' = Some (JStr []) \<and> m ''priority'' = Some (JStr ''SOON'')
                   \<and> m ''max_retries'' = Some (JNum (- 1))
    | FailedToCreateTask500 \<Rightarrow> False)"
  by (simp add: object_of_def task_defaults_def)

text \<open>
  Claim C10. The task \<^verbatim>\<open>POST /api/tasks\<close> creates is the default record
  overridden by the fields of the request body: a field of the body has the
  body's value (the last one, when the body's text repeats a key), every other
  field its default, so the five defaults apply exactly where the body has no
  such field; and some request makes a task whose status, id, retry count and
  retry limit all differ from the defaults.
\<close>

theorem C10_request_fields_override_defaults:
  "(\<exists>m. POST_tasks now stamp (Json (JObj kvs)) ts = (Created m, ts)
     \<and> (\<forall>k. k \<in> fst ` set kvs \<longrightarrow> m k = object_of kvs k)
     \<and> (\<forall>k v. distinct (map fst kvs) \<and> (k, v) \<in> set kvs \<longrightarrow> m k = Some v)
     \<and> (\<forall>k. k \<notin> fst ` set kvs \<longrightarrow> m k = object_of (task_defaults now stamp) k)
     \<and> (''id'' \<notin> fst ` set kvs \<longrightarrow> m ''id'' = Some (JStr (''task-'' @ decimal now)))
     \<and> (''created_at'' \<notin> fst ` set kvs \<longrightarrow> m ''created_at'' = Some (JStr stamp))
     \<and> (''status'' \<notin> fst ` set kvs \<longrightarrow> m ''status'' = Some (JStr ''pending''))
     \<and> (''retry_count'' \<notin> fst ` set kvs \<longrightarrow> m ''retry_count'' = Some (JNum 0))
     \<and> (''max_retries'' \<notin> fst ` set kvs \<longrightarrow> m ''max_retries'' = Some (JNum 3)))
   \<and> (\<exists>kvs' m'. POST_tasks now stamp (Json (JObj kvs')) ts = (Created m', ts)
         \<and> m' ''status'' \<noteq> Some (JStr ''pending'')
         \<and> m' ''id'' \<noteq> Some (JStr (''task-'' @ decimal now))
         \<and> m' ''retry_count'' \<noteq> Some (JNum 0)
         \<and> m' ''max_retries'' \<noteq> Some (JNum 3))"
proof
  let ?m = "object_of (task_defaults now stamp @ kvs)"
  have post: "POST_tasks now stamp (Json (JObj kvs)) ts = (Created ?m, ts)"
    by simp
  have given: "\<forall>k. k \<in> fst ` set kvs \<longrightarrow> ?m k = object_of kvs k"
    by (simp add: created_present)
  have absent: "\<forall>k. k \<notin> fst ` set kvs \<longrightarrow> ?m k = object_of (task_defaults now stamp) k"
    by (simp add: created_absent)
  have exact: "\<forall>k v. distinct (map fst kvs) \<and> (k, v) \<in> set kvs \<longrightarrow> ?m k = Some v"
    by (simp add: created_exact)
  from absent have
    "''id'' \<notin> fst ` set kvs \<longrightarrow> ?m ''id'' = Some (JStr (''task-'' @ decimal now))"
    "''created_at'' \<notin> fst ` set kvs \<longrightarrow> ?m ''created_at'' = Some (JStr stamp)"
    "''status'' \<notin> fst ` set kvs \<longrightarrow> ?m ''status'' = Some (JStr ''pending'')"
    "''retry_count'' \<notin> fst ` set kvs \<longrightarrow> ?m ''retry_count'' = Some (JNum 0)"
    "''max_retries'' \<notin> fst ` set kvs \<longrightarrow> ?m ''max_retries'' = Some (JNum 3)"
    by (simp_all add: defaults_lookup)
  with post given absent exact
  show "\<exists>m. POST_tasks now stamp (Json (JObj kvs)) ts = (Created m, ts)
     \<and> (\<forall>k. k \<in> fst ` set kvs \<longrightarrow> m k = object_of kvs k)
     \<and> (\<forall>k v. distinct (map fst kvs) \<and> (k, v) \<in> set kvs \<longrightarrow> m k = Some v)
     \<and> (\<forall>k. k \<notin> fst ` set kvs \<longrightarrow> m k = object_of (task_defaults now stamp) k)
     \<and> (''id'' \<notin> fst ` set kvs \<longrightarrow> m ''id'' = Some (JStr (''task-'' @ decimal now)))
     \<and> (''created_at'' \<notin> fst ` set kvs \<longrightarrow> m ''created_at'' = Some (JStr stamp))
     \<and> (''status'' \<notin> fst ` set kvs \<longrightarrow> m ''status'' = Some (JStr ''pending''))
     \<and> (''retry_count'' \<notin> fst ` set kvs \<longrightarrow> m ''retry_count'' = Some (JNum 0))
     \<and> (''max_retries'' \<notin> fst ` set kvs \<longrightarrow> m ''max_retries'' = Some (JNum 3))"
    by blast
next
  let ?kvs = "[(''status'', JStr ''completed''), (''id'', JNull), (''retry_count'', JNum 7),
               (''max_retries'', JNum 0)]"
  let ?m = "object_of (task_defaults now stamp @ ?kvs)"
  have "POST_tasks now stamp (Json (JObj ?kvs)) ts = (Created ?m, ts)"
    by simp
  moreover have "?m ''status'' \<noteq> Some (JStr ''pending'')"
    "?m ''id'' \<noteq> Some (JStr (''task-'' @ decimal now))"
    "?m ''retry_count'' \<noteq> Some (JNum 0)" "?m ''max_retries'' \<noteq> Some (JNum 3)"
    by (simp_all add: object_of_def)
  ultimately
  show "\<exists>kvs' m'. POST_tasks now stamp (Json (JObj kvs')) ts = (Created m', ts)
         \<and> m' ''status'' \<noteq> Some (JStr ''pending'')
         \<and> m' ''id'' \<noteq> Some (JStr (''task-'' @ decimal now))
         \<and> m' ''retry_count'' \<noteq> Some (JNum 0)
         \<and> m' ''max_retries'' \<noteq> Some (JNum 3)"
    by blast
qed

text \<open>
  The theorem at a request that gives a status and a retry count of its own
  and nothing else: these two are the request's, the retry limit and the id
  are the defaults.
\<close>

theorem C10_request_fields_override_defaults_witness:
  "\<exists>m. POST_tasks 5 ''2025-08-18T00:00:00.000Z''
          (Json (JObj [(''status'', JStr ''running''), (''retry_count'', JNum 2)])) []
        = (Created m, [])
     \<and> m ''status'' = Some (JStr ''running'')
     \<and> m ''retry_count'' = Some (JNum 2)
     \<and> m ''max_retries'' = Some (JNum 3)
     \<and> m ''id'' = Some (JStr ''task-5'')"
proof -
  let ?kvs = "[(''status'', JStr ''running''), (''retry_count'', JNum 2)]"
  from C10_request_fields_override_defaults [of 5 "''2025-08-18T00:00:00.000Z''" ?kvs "[]"]
  obtain m where
    post: "POST_tasks 5 ''2025-08-18T00:00:00.000Z'' (Json (JObj ?kvs)) [] = (Created m, [])"
    and given: "\<forall>k v. distinct (map fst ?kvs) \<and> (k, v) \<in> set ?kvs \<longrightarrow> m k = Some v"
    and limit: "''max_retries'' \<notin> fst ` set ?kvs \<longrightarrow> m ''max_retries'' = Some (JNum 3)"
    and fresh: "''id'' \<notin> fst ` set ?kvs \<longrightarrow> m ''id'' = Some (JStr (''task-'' @ decimal 5))"
    by blast
  have "m ''status'' = Some (JStr ''running'')" "m ''retry_count'' = Some (JNum 2)"
    using given by simp_all
  moreover have "m ''max_retries'' = Some (JNum 3)"
    using limit by simp
  moreover have "m ''id'' = Some (JStr ''task-5'')"
    using fresh by (simp add: decimal.simps digit_def)
  ultimately show ?thesis
    using post by blast
qed

lemma parseInt_100: "parseInt ''100'' = Some 100"
  by (simp add: parseInt_def is_space1_def is_space2_def is_space3_def is_digit_def digit_value_def
      digits_value_def)

lemma parseInt_1: "parseInt ''1'' = Some 1"
  by (simp add: parseInt_def is_space1_def is_space2_def is_space3_def is_digit_def digit_value_def
      digits_value_def)

lemma slice0_take: "\<exists>n. slice0 e xs = take n xs"
  by (auto simp: slice0_def)

lemma slice0_map: "slice0 e (map f xs) = map f (slice0 e xs)"
  by (simp add: slice0_def take_map)

lemma GET_tasks_prefix:
  "\<exists>n. GET_tasks ts st lp =
     take n (filter (\<lambda>t. case st of None \<Rightarrow> True | Some s \<Rightarrow> s = [] \<or> status_t t = s) ts)"
proof -
  let ?F = "filter (\<lambda>t. case st of None \<Rightarrow> True | Some s \<Rightarrow> s = [] \<or> status_t t = s) ts"
  have f: "(case st of None \<Rightarrow> ts
            | Some s \<Rightarrow> if s = [] then ts else filter (\<lambda>task. status_t task = s) ts) = ?F"
    by (cases st) (auto intro!: filter_cong)
  have "GET_tasks ts st lp = ?F \<or> (\<exists>l. GET_tasks ts st lp = slice0 l ?F)"
    unfolding GET_tasks_def Let_def f by (auto split: option.splits)
  then show ?thesis
  proof
    assume "GET_tasks ts st lp = ?F"
    then have "GET_tasks ts st lp = take (length ?F) ?F" by simp
    then show ?thesis ..
  next
    assume "\<exists>l. GET_tasks ts st lp = slice0 l ?F"
    then show ?thesis using slice0_take [of _ ?F] by metis
  qed
qed

lemma GET_tasks_priority_blind:
  "GET_tasks (map (\<lambda>t. t\<lparr>priority_t := f t\<rparr>) ts) st lp
   = map (\<lambda>t. t\<lparr>priority_t := f t\<rparr>) (GET_tasks ts st lp)"
  unfolding GET_tasks_def Let_def
  by (auto simp: slice0_map filter_map comp_def split: option.splits)

lemma GET_tasks_default_limit:
  assumes "length ts \<le> 100" and "s \<noteq> []"
  shows "GET_tasks ts (Some s) None = filter (\<lambda>t. status_t t = s) ts"
proof -
  have "length (filter (\<lambda>t. status_t t = s) ts) \<le> 100"
    using assms(1) length_filter_le [of "\<lambda>t. status_t t = s" ts] by linarith
  then show ?thesis
    using assms(2) by (simp add: GET_tasks_def parseInt_100 slice0_def)
qed

text \<open>
  Claim C8, as the code has it. Task retrieval keeps the stored order: the
  answer of \<^verbatim>\<open>GET /api/tasks\<close> is a prefix of the stored tasks that match the
  status filter, cut by the limit; priorities are never read, so changing them
  changes nothing but the priorities shown; with the default limit, up to 100
  stored tasks and a status filter, the answer is all matching tasks in stored
  order. For pending tasks stored in the order LOW, URGENT, MEDIUM it answers
  LOW, URGENT, MEDIUM.
\<close>

theorem C8_retrieval_in_stored_order:
  "(\<exists>n. GET_tasks ts st lp =
      take n (filter (\<lambda>t. case st of None \<Rightarrow> True | Some s \<Rightarrow> s = [] \<or> status_t t = s) ts))
   \<and> GET_tasks (map (\<lambda>t. t\<lparr>priority_t := f t\<rparr>) ts) st lp
       = map (\<lambda>t. t\<lparr>priority_t := f t\<rparr>) (GET_tasks ts st lp)
   \<and> (length ts \<le> 100 \<and> s \<noteq> [] \<longrightarrow>
        GET_tasks ts (Some s) None = filter (\<lambda>t. status_t t = s) ts)"
  using GET_tasks_prefix [of ts st lp] GET_tasks_priority_blind [of f ts st lp]
    GET_tasks_default_limit [of ts s]
  by blast

theorem C8_retrieval_in_stored_order_witness:
  "map priority_t
     (GET_tasks [pending_task ''t1'' ''LOW'' ''2025-08-18T00:00:01'',
                 pending_task ''t2'' ''URGENT'' ''2025-08-18T00:00:02'',
                 pending_task ''t3'' ''MEDIUM'' ''2025-08-18T00:00:03'']
        (Some ''PENDING'') None)
   = [''LOW'', ''URGENT'', ''MEDIUM'']"
proof -
  let ?ts = "[pending_task ''t1'' ''LOW'' ''2025-08-18T00:00:01'',
              pending_task ''t2'' ''URGENT'' ''2025-08-18T00:00:02'',
              pending_task ''t3'' ''MEDIUM'' ''2025-08-18T00:00:03'']"
  have "length ?ts \<le> 100 \<and> ''PENDING'' \<noteq> []"
    by simp
  with C8_retrieval_in_stored_order [of ?ts _ _ _ "''PENDING''"]
  have "GET_tasks ?ts (Some ''PENDING'') None = filter (\<lambda>t. status_t t = ''PENDING'') ?ts"
    by blast
  then show ?thesis
    by (simp add: pending_task_def)
qed

text \<open>
  Against claim C8 as stated: of three pending tasks stored in the order LOW,
  URGENT, MEDIUM, the first one retrieved is the LOW one.
\<close>

theorem C8_counterexample:
  "map priority_t
     (GET_tasks [pending_task ''t1'' ''LOW'' ''2025-08-18T00:00:01'',
                 pending_task ''t2'' ''URGENT'' ''2025-08-18T00:00:02'',
                 pending_task ''t3'' ''MEDIUM'' ''2025-08-18T00:00:03'']
        (Some ''PENDING'') (Some ''1''))
   = [''LOW'']"
  by (simp add: GET_tasks_def parseInt_1 slice0_def pending_task_def)

subsection \<open>Task list\<close>

lemma handleTaskAction_tasks:
  "tasks (handleTaskAction tid a ui)
   = map (\<lambda>task. if task_id task = tid then apply_action a task else task) (tasks ui)"
  by (simp add: handleTaskAction_def)

lemma handleTaskAction_other:
  "distinct (map task_id (tasks ui)) \<Longrightarrow> t \<in> set (tasks ui) \<Longrightarrow> u \<in> set (tasks ui) \<Longrightarrow>
   u \<noteq> t \<Longrightarrow> u \<in> set (tasks (handleTaskAction (task_id t) a ui))"
  by (auto simp: handleTaskAction_tasks distinct_map inj_on_def image_iff)

lemma task_click_keeps_terminal:
  assumes "task_click ui ui'" "distinct (map task_id (tasks ui))" "t \<in> set (tasks ui)"
    "\<not> retry_rendered t" "\<not> cancel_rendered t"
  shows "t \<in> set (tasks ui')"
  using assms
  by (cases rule: task_click.cases) (auto intro!: handleTaskAction_other)

lemma task_click_retry_bound:
  assumes "task_click ui ui'" "distinct (map task_id (tasks ui))"
    "\<forall>u \<in> set (tasks ui). retry_count u \<le> max_retries u"
  shows "\<forall>u \<in> set (tasks ui'). retry_count u \<le> max_retries u"
  using assms
proof (cases rule: task_click.cases)
  case (click_retry task)
  show ?thesis
  proof
    fix u assume "u \<in> set (tasks ui')"
    then obtain v where v: "v \<in> set (tasks ui)"
      and u: "u = (if task_id v = task_id task then apply_action retry v else v)"
      using click_retry by (auto simp: handleTaskAction_tasks)
    show "retry_count u \<le> max_retries u"
    proof (cases "task_id v = task_id task")
      case True
      then have "v = task"
        using assms(2) v click_retry(2) by (auto simp: distinct_map inj_on_def)
      then show ?thesis
        using u True click_retry(3) by (simp add: retry_rendered_def)
    next
      case False
      then show ?thesis using u v assms(3) by simp
    qed
  qed
next
  case (click_cancel task)
  then show ?thesis
    using assms(3) by (auto simp: handleTaskAction_tasks)
qed

lemma task_click_cancelled_from:
  assumes "task_click ui ui'" "distinct (map task_id (tasks ui))" "i < length (tasks ui)"
    "status (tasks ui' ! i) = CANCELLED" "status (tasks ui ! i) \<noteq> CANCELLED"
  shows "status (tasks ui ! i) = PENDING \<or> status (tasks ui ! i) = RUNNING"
  using assms
proof (cases rule: task_click.cases)
  case (click_retry task)
  then show ?thesis
    using assms(3,4,5) by (auto simp: handleTaskAction_tasks split: if_splits)
next
  case (click_cancel task)
  have "task_id (tasks ui ! i) = task_id task"
    using click_cancel assms(3,4,5) by (auto simp: handleTaskAction_tasks split: if_splits)
  moreover have "tasks ui ! i \<in> set (tasks ui)" using assms(3) by simp
  ultimately have "tasks ui ! i = task"
    using assms(2) click_cancel(2) by (auto simp: distinct_map inj_on_def)
  then show ?thesis
    using click_cancel(3) by (simp add: cancel_rendered_def)
qed

lemma retry_replaces:
  assumes d: "distinct (map task_id (tasks ui))" and t: "t \<in> set (tasks ui)"
  shows "tasks (handleTaskAction (task_id t) a ui)
         = map (\<lambda>u. if u = t then apply_action a t else u) (tasks ui)"
proof -
  have "\<And>u. u \<in> set (tasks ui) \<Longrightarrow> (task_id u = task_id t) = (u = t)"
    using d t by (auto simp: distinct_map inj_on_def)
  then show ?thesis
    by (auto simp: handleTaskAction_tasks intro!: map_cong)
qed

text \<open>
  Claim C4. For a FAILED task whose retry count is below its limit the Retry
  button is rendered, and the retry sets every task with that id to PENDING
  with the retry count one higher and leaves every task with another id as it
  was; with unique ids the task list is the old one with this one task
  replaced. For a FAILED task whose retry count has reached the limit neither
  button is rendered, so no click changes it: it stays FAILED. No click lets a
  retry count pass the limit, and a FAILED task that counts at most its limit
  and is offered no retry counts exactly its limit. (The test of the status
  and of the counters is the condition of the button; the handler has none.)
\<close>

theorem C4_retry_requeues:
  "(t \<in> set (tasks ui) \<and> status t = FAILED \<and> retry_count t < max_retries t \<longrightarrow>
      retry_rendered t
      \<and> length (tasks (handleTaskAction (task_id t) retry ui)) = length (tasks ui)
      \<and> (\<forall>i < length (tasks ui).
           tasks (handleTaskAction (task_id t) retry ui) ! i =
             (if task_id (tasks ui ! i) = task_id t
              then (tasks ui ! i)\<lparr>status := PENDING, retry_count := retry_count (tasks ui ! i) + 1\<rparr>
              else tasks ui ! i))
      \<and> (distinct (map task_id (tasks ui)) \<longrightarrow>
           tasks (handleTaskAction (task_id t) retry ui) =
             map (\<lambda>u. if u = t then t\<lparr>status := PENDING, retry_count := retry_count t + 1\<rparr> else u)
               (tasks ui)))
   \<and> (status t = FAILED \<and> max_retries t \<le> retry_count t \<longrightarrow>
        \<not> retry_rendered t \<and> \<not> cancel_rendered t)
   \<and> (task_click ui ui' \<and> distinct (map task_id (tasks ui)) \<and> t \<in> set (tasks ui)
        \<and> status t = FAILED \<and> max_retries t \<le> retry_count t \<longrightarrow> t \<in> set (tasks ui'))
   \<and> (task_click ui ui' \<and> distinct (map task_id (tasks ui))
        \<and> (\<forall>u \<in> set (tasks ui). retry_count u \<le> max_retries u)
      \<longrightarrow> (\<forall>u \<in> set (tasks ui'). retry_count u \<le> max_retries u))
   \<and> (status t = FAILED \<and> \<not> retry_rendered t \<and> retry_count t \<le> max_retries t \<longrightarrow>
        retry_count t = max_retries t)"
proof (intro conjI impI)
  assume "t \<in> set (tasks ui) \<and> status t = FAILED \<and> retry_count t < max_retries t"
  then show "retry_rendered t" by (simp add: retry_rendered_def)
next
  show "length (tasks (handleTaskAction (task_id t) retry ui)) = length (tasks ui)"
    by (simp add: handleTaskAction_tasks)
next
  show "\<forall>i < length (tasks ui).
           tasks (handleTaskAction (task_id t) retry ui) ! i =
             (if task_id (tasks ui ! i) = task_id t
              then (tasks ui ! i)\<lparr>status := PENDING, retry_count := retry_count (tasks ui ! i) + 1\<rparr>
              else tasks ui ! i)"
    by (simp add: handleTaskAction_tasks)
next
  assume "t \<in> set (tasks ui) \<and> status t = FAILED \<and> retry_count t < max_retries t"
    and "distinct (map task_id (tasks ui))"
  then show "tasks (handleTaskAction (task_id t) retry ui) =
             map (\<lambda>u. if u = t then t\<lparr>status := PENDING, retry_count := retry_count t + 1\<rparr> else u)
               (tasks ui)"
    using retry_replaces [of ui t retry] by simp
next
  assume "status t = FAILED \<and> max_retries t \<le> retry_count t"
  then show "\<not> retry_rendered t" "\<not> cancel_rendered t"
    by (simp_all add: retry_rendered_def cancel_rendered_def)
next
  assume "task_click ui ui' \<and> distinct (map task_id (tasks ui)) \<and> t \<in> set (tasks ui)
        \<and> status t = FAILED \<and> max_retries t \<le> retry_count t"
  then show "t \<in> set (tasks ui')"
    using task_click_keeps_terminal [of ui ui' t]
    by (simp add: retry_rendered_def cancel_rendered_def)
next
  assume "task_click ui ui' \<and> distinct (map task_id (tasks ui))
        \<and> (\<forall>u \<in> set (tasks ui). retry_count u \<le> max_retries u)"
  then show "\<forall>u \<in> set (tasks ui'). retry_count u \<le> max_retries u"
    using task_click_retry_bound [of ui ui'] by blast
next
  assume "status t = FAILED \<and> \<not> retry_rendered t \<and> retry_count t \<le> max_retries t"
  then show "retry_count t = max_retries t"
    by (auto simp: retry_rendered_def)
qed

text \<open>
  The theorem on a page with a task \<open>a\<close> that failed once of three times and a
  task \<open>b\<close> that failed three of three times: the retry of \<open>a\<close> is a click the
  page offers, it re-queues \<open>a\<close> with count 2, and \<open>b\<close> stays as it was.
\<close>

theorem C4_retry_requeues_witness:
  "retry_rendered (sample_task ''a'' FAILED 1 3)
   \<and> tasks (handleTaskAction ''a'' retry
        (sample_page [sample_task ''a'' FAILED 1 3, sample_task ''b'' FAILED 3 3]))
      = [sample_task ''a'' PENDING 2 3, sample_task ''b'' FAILED 3 3]
   \<and> \<not> retry_rendered (sample_task ''b'' FAILED 3 3)
   \<and> \<not> cancel_rendered (sample_task ''b'' FAILED 3 3)
   \<and> task_click (sample_page [sample_task ''a'' FAILED 1 3, sample_task ''b'' FAILED 3 3])
        (handleTaskAction ''a'' retry
          (sample_page [sample_task ''a'' FAILED 1 3, sample_task ''b'' FAILED 3 3]))
   \<and> sample_task ''b'' FAILED 3 3
       \<in> set (tasks (handleTaskAction ''a'' retry
            (sample_page [sample_task ''a'' FAILED 1 3, sample_task ''b'' FAILED 3 3])))"
proof -
  let ?a = "sample_task ''a'' FAILED 1 3" and ?b = "sample_task ''b'' FAILED 3 3"
  let ?ui = "sample_page [?a, ?b]"
  let ?ui' = "handleTaskAction ''a'' retry ?ui"
  have ida: "task_id ?a = ''a''" by (simp add: sample_task_def)
  have pre_a: "?a \<in> set (tasks ?ui) \<and> status ?a = FAILED \<and> retry_count ?a < max_retries ?a"
    by (simp add: sample_page_def sample_task_def)
  have d: "distinct (map task_id (tasks ?ui))"
    by (simp add: sample_page_def sample_task_def)
  from C4_retry_requeues [of ?a ?ui ?ui'] pre_a d
  have ra: "retry_rendered ?a"
    and eq: "tasks (handleTaskAction (task_id ?a) retry ?ui) =
             map (\<lambda>u. if u = ?a then ?a\<lparr>status := PENDING, retry_count := retry_count ?a + 1\<rparr> else u)
               (tasks ?ui)"
    by blast+
  have click: "task_click ?ui ?ui'"
    using click_retry [of ?a ?ui] pre_a ra by (simp add: ida sample_page_def)
  have pre_b: "?b \<in> set (tasks ?ui) \<and> status ?b = FAILED \<and> max_retries ?b \<le> retry_count ?b"
    by (simp add: sample_page_def sample_task_def)
  from C4_retry_requeues [of ?b ?ui ?ui'] pre_b d click
  have nb: "\<not> retry_rendered ?b" "\<not> cancel_rendered ?b" and stays: "?b \<in> set (tasks ?ui')"
    by blast+
  have "tasks ?ui' = [sample_task ''a'' PENDING 2 3, ?b]"
    using eq by (simp add: ida sample_page_def sample_task_def)
  with ra nb click stays show ?thesis
    by simp
qed

lemma handleTaskAction_task_ids:
  "map task_id (tasks (handleTaskAction tid a ui)) = map task_id (tasks ui)"
  by (cases a) (auto simp: handleTaskAction_tasks)

lemma task_click_task_ids:
  assumes "task_click ui ui'"
  shows "map task_id (tasks ui') = map task_id (tasks ui)"
  using assms by (cases rule: task_click.cases) (simp_all add: handleTaskAction_task_ids)

lemma task_click_unrendered_same:
  assumes "task_click ui ui'" "distinct (map task_id (tasks ui))" "i < length (tasks ui)"
    "\<not> retry_rendered (tasks ui ! i)" "\<not> cancel_rendered (tasks ui ! i)"
  shows "tasks ui' ! i = tasks ui ! i"
proof -
  have mem: "tasks ui ! i \<in> set (tasks ui)" using assms(3) by simp
  have other: "task_id (tasks ui ! i) \<noteq> task_id task"
    if "task \<in> set (tasks ui)" "retry_rendered task \<or> cancel_rendered task" for task
  proof
    assume "task_id (tasks ui ! i) = task_id task"
    then have "tasks ui ! i = task"
      using assms(2) mem that(1) by (auto simp: distinct_map inj_on_def)
    with that(2) assms(4,5) show False by simp
  qed
  from assms(1) show ?thesis
  proof (cases rule: task_click.cases)
    case (click_retry task)
    with other [of task] assms(3) show ?thesis
      by (simp add: handleTaskAction_tasks)
  next
    case (click_cancel task)
    with other [of task] assms(3) show ?thesis
      by (simp add: handleTaskAction_tasks)
  qed
qed

text \<open>
  Claim C5. A task becomes CANCELLED only from PENDING or RUNNING. The Cancel
  button is rendered exactly for PENDING and RUNNING tasks, so for a
  COMPLETED, a FAILED or a CANCELLED task the cancel operation is not offered.
  The clicks of the page are the only calls of the handler, and they keep the
  tasks and their order; on a page whose tasks have unique ids, a task that is
  CANCELLED after a click and was not before was PENDING or RUNNING, no click
  makes a COMPLETED or a FAILED task CANCELLED, and a COMPLETED or CANCELLED
  task is left by every click as it was.
\<close>

theorem C5_cancelled_only_from_pending_or_running:
  "(cancel_rendered t \<longleftrightarrow> status t = PENDING \<or> status t = RUNNING)
   \<and> (status t = COMPLETED \<or> status t = FAILED \<or> status t = CANCELLED \<longrightarrow> \<not> cancel_rendered t)
   \<and> (task_click ui ui' \<longrightarrow> map task_id (tasks ui') = map task_id (tasks ui))
   \<and> (task_click ui ui' \<and> distinct (map task_id (tasks ui)) \<and> i < length (tasks ui)
        \<and> status (tasks ui' ! i) = CANCELLED \<and> status (tasks ui ! i) \<noteq> CANCELLED
      \<longrightarrow> status (tasks ui ! i) = PENDING \<or> status (tasks ui ! i) = RUNNING)
   \<and> (task_click ui ui' \<and> distinct (map task_id (tasks ui)) \<and> i < length (tasks ui)
        \<and> (status (tasks ui ! i) = COMPLETED \<or> status (tasks ui ! i) = FAILED)
      \<longrightarrow> status (tasks ui' ! i) \<noteq> CANCELLED)
   \<and> (task_click ui ui' \<and> distinct (map task_id (tasks ui)) \<and> i < length (tasks ui)
        \<and> (status (tasks ui ! i) = COMPLETED \<or> status (tasks ui ! i) = CANCELLED)
      \<longrightarrow> tasks ui' ! i = tasks ui ! i)"
proof (intro conjI impI)
  show "cancel_rendered t \<longleftrightarrow> status t = PENDING \<or> status t = RUNNING"
    by (simp add: cancel_rendered_def)
next
  assume "status t = COMPLETED \<or> status t = FAILED \<or> status t = CANCELLED"
  then show "\<not> cancel_rendered t"
    by (auto simp: cancel_rendered_def)
next
  assume "task_click ui ui'"
  then show "map task_id (tasks ui') = map task_id (tasks ui)"
    by (rule task_click_task_ids)
next
  assume "task_click ui ui' \<and> distinct (map task_id (tasks ui)) \<and> i < length (tasks ui)
        \<and> status (tasks ui' ! i) = CANCELLED \<and> status (tasks ui ! i) \<noteq> CANCELLED"
  then show "status (tasks ui ! i) = PENDING \<or> status (tasks ui ! i) = RUNNING"
    using task_click_cancelled_from [of ui ui' i] by blast
next
  assume a: "task_click ui ui' \<and> distinct (map task_id (tasks ui)) \<and> i < length (tasks ui)
        \<and> (status (tasks ui ! i) = COMPLETED \<or> status (tasks ui ! i) = FAILED)"
  show "status (tasks ui' ! i) \<noteq> CANCELLED"
  proof
    assume "status (tasks ui' ! i) = CANCELLED"
    with a have "status (tasks ui ! i) = PENDING \<or> status (tasks ui ! i) = RUNNING"
      using task_click_cancelled_from [of ui ui' i] by auto
    with a show False by auto
  qed
next
  assume a: "task_click ui ui' \<and> distinct (map task_id (tasks ui)) \<and> i < length (tasks ui)
        \<and> (status (tasks ui ! i) = COMPLETED \<or> status (tasks ui ! i) = CANCELLED)"
  then have "\<not> retry_rendered (tasks ui ! i)" "\<not> cancel_rendered (tasks ui ! i)"
    by (auto simp: retry_rendered_def cancel_rendered_def)
  with a show "tasks ui' ! i = tasks ui ! i"
    using task_click_unrendered_same [of ui ui' i] by blast
qed

text \<open>
  The theorem on a page with a RUNNING task \<open>a\<close> and a COMPLETED task \<open>b\<close>:
  no Cancel button for \<open>b\<close>; the click on Cancel for \<open>a\<close> is offered, makes
  \<open>a\<close> CANCELLED from RUNNING and leaves \<open>b\<close> COMPLETED.
\<close>

theorem C5_cancelled_only_from_pending_or_running_witness:
  "\<not> cancel_rendered (sample_task ''b'' COMPLETED 0 3)
   \<and> task_click (sample_page [sample_task ''a'' RUNNING 0 3, sample_task ''b'' COMPLETED 0 3])
       (handleTaskAction ''a'' cancel
          (sample_page [sample_task ''a'' RUNNING 0 3, sample_task ''b'' COMPLETED 0 3]))
   \<and> tasks (handleTaskAction ''a'' cancel
        (sample_page [sample_task ''a'' RUNNING 0 3, sample_task ''b'' COMPLETED 0 3]))
      = [sample_task ''a'' CANCELLED 0 3, sample_task ''b'' COMPLETED 0 3]
   \<and> status (sample_task ''a'' RUNNING 0 3) = RUNNING"
proof -
  let ?a = "sample_task ''a'' RUNNING 0 3" and ?b = "sample_task ''b'' COMPLETED 0 3"
  let ?ui = "sample_page [?a, ?b]"
  let ?ui' = "handleTaskAction ''a'' cancel ?ui"
  have ids: "task_id ?a = ''a''" "task_id ?b = ''b''" by (simp_all add: sample_task_def)
  have click: "task_click ?ui ?ui'"
    using click_cancel [of ?a ?ui]
    by (simp add: ids cancel_rendered_def sample_page_def sample_task_def)
  have first: "tasks ?ui' ! 0 = sample_task ''a'' CANCELLED 0 3"
    by (simp add: handleTaskAction_def sample_page_def sample_task_def)
  have len: "length (tasks ?ui') = 2"
    by (simp add: handleTaskAction_def sample_page_def)
  have pre0: "distinct (map task_id (tasks ?ui)) \<and> 0 < length (tasks ?ui)
     \<and> status (tasks ?ui' ! 0) = CANCELLED \<and> status (tasks ?ui ! 0) \<noteq> CANCELLED"
    by (simp add: handleTaskAction_def sample_page_def sample_task_def)
  have pre1: "distinct (map task_id (tasks ?ui)) \<and> 1 < length (tasks ?ui)
     \<and> (status (tasks ?ui ! 1) = COMPLETED \<or> status (tasks ?ui ! 1) = CANCELLED)"
    by (simp add: sample_page_def sample_task_def)
  have "status ?b = COMPLETED \<or> status ?b = FAILED \<or> status ?b = CANCELLED"
    by (simp add: sample_task_def)
  with C5_cancelled_only_from_pending_or_running [of ?b ?ui ?ui' 1] click pre1
  have nb: "\<not> cancel_rendered ?b" and second: "tasks ?ui' ! 1 = tasks ?ui ! 1"
    by blast+
  from C5_cancelled_only_from_pending_or_running [of ?a ?ui ?ui' 0] click pre0
  have "status (tasks ?ui ! 0) = PENDING \<or> status (tasks ?ui ! 0) = RUNNING"
    by blast
  then have from_running: "status ?a = RUNNING"
    by (simp add: sample_page_def sample_task_def)
  have "tasks ?ui' = [tasks ?ui' ! 0, tasks ?ui' ! 1]"
    using len by (cases "tasks ?ui'") (auto simp: length_Suc_conv)
  then have "tasks ?ui' = [sample_task ''a'' CANCELLED 0 3, ?b]"
    using first second by (simp add: sample_page_def)
  with nb click from_running show ?thesis
    by simp
qed

subsection \<open>Agent hierarchy\<close>

lemma add_loop_unfold:
  "add_loop clk i q h =
     (if of_nat i < q then add_loop clk (Suc i) q (add_auto_agent (clk i) h) else h)"
  by (rule add_loop.simps)

lemma add_auto_agent_simps:
  "boss_agent (add_auto_agent t h) = boss_agent h"
  "next_agent_id (add_auto_agent t h) = Suc (next_agent_id h)"
  "total_agents (add_auto_agent t h) = total_agents h"
  "subordinate_agents (add_auto_agent t h) = subordinate_agents h @
     [newAgent (next_agent_id h) (''Auto Agent '' @ decimal (next_agent_id h)) t]"
  by (simp_all add: add_auto_agent_def)

lemma auto_agents_Suc:
  "auto_agents clk i n (Suc k) =
     newAgent n (''Auto Agent '' @ decimal n) (clk i) # auto_agents clk (Suc i) (Suc n) k"
  by (simp add: auto_agents_def upt_conv_Cons map_Suc_upt [symmetric] del: upt_Suc)

lemma add_loop_result:
  "boss_agent (add_loop clk i q h) = boss_agent h \<and>
   next_agent_id (add_loop clk i q h) = next_agent_id h + (nat \<lceil>q\<rceil> - i) \<and>
   subordinate_agents (add_loop clk i q h) =
     subordinate_agents h @ auto_agents clk i (next_agent_id h) (nat \<lceil>q\<rceil> - i)"
proof (induction clk i q h rule: add_loop.induct)
  case (1 clk i q h)
  show ?case
  proof (cases "of_nat i < q")
    case True
    then have "int i < \<lceil>q\<rceil>" by (simp add: less_ceiling_iff)
    then have k: "nat \<lceil>q\<rceil> - i = Suc (nat \<lceil>q\<rceil> - Suc i)" by linarith
    from True "1.IH" show ?thesis
      by (subst (1 2 3) add_loop_unfold) (simp add: add_auto_agent_simps k auto_agents_Suc)
  next
    case False
    then have "\<not> int i < \<lceil>q\<rceil>" by (simp add: less_ceiling_iff)
    then have "nat \<lceil>q\<rceil> - i = 0" by linarith
    with False show ?thesis
      by (subst (1 2 3) add_loop_unfold) (simp add: auto_agents_def)
  qed
qed

lemma remove_agent_filter:
  "distinct (map agent_id xs) \<Longrightarrow> remove_agent k xs = filter (\<lambda>a. agent_id a \<noteq> k) xs"
proof (induction xs)
  case Nil
  then show ?case by simp
next
  case (Cons a as)
  show ?case
  proof (cases "agent_id a = k")
    case True
    with Cons.prems have "k \<notin> agent_id ` set as" by simp
    then have "\<forall>b \<in> set as. agent_id b \<noteq> k" by blast
    then have "filter (\<lambda>a. agent_id a \<noteq> k) as = as" by (simp add: filter_id_conv)
    with True show ?thesis by simp
  next
    case False
    with Cons show ?thesis by simp
  qed
qed

lemma distinct_ids_filter:
  "distinct (map agent_id xs) \<Longrightarrow> distinct (map agent_id (filter P xs))"
  by (simp add: distinct_map_filter)

lemma rounds_le: "rounds r idleAgents \<le> length idleAgents"
proof -
  have "\<lceil>min r (of_nat (length idleAgents))\<rceil> \<le> \<lceil>(of_nat (length idleAgents) :: rat)\<rceil>"
    by (rule ceiling_mono) simp
  then show ?thesis by (simp add: rounds_def)
qed

lemma rounds_iff: "of_nat i < min r (of_nat (length idleAgents)) \<longleftrightarrow> i < rounds r idleAgents"
proof -
  have "of_nat i < min r (of_nat (length idleAgents))
        \<longleftrightarrow> int i < \<lceil>min r (of_nat (length idleAgents))\<rceil>"
    by (simp only: less_ceiling_iff of_int_of_nat_eq)
  then show ?thesis by (simp add: rounds_def) linarith
qed

lemma remove_loop_filter:
  "distinct (map agent_id subs) \<Longrightarrow>
   remove_loop i r idleAgents subs =
     filter (\<lambda>a. agent_id a \<notin> agent_id ` set (drop i (take (rounds r idleAgents) idleAgents))) subs"
proof (induction i r idleAgents subs rule: remove_loop.induct)
  case (1 i r idleAgents subs)
  let ?m = "rounds r idleAgents"
  show ?case
  proof (cases "i < ?m")
    case True
    then have c: "of_nat i < min r (of_nat (length idleAgents))"
      using rounds_iff [of i r idleAgents] by blast
    have len: "i < length (take ?m idleAgents)" using True rounds_le [of r idleAgents] by simp
    have d: "drop i (take ?m idleAgents) = idleAgents ! i # drop (Suc i) (take ?m idleAgents)"
      using Cons_nth_drop_Suc [OF len] True by simp
    let ?subs' = "remove_agent (agent_id (idleAgents ! i)) subs"
    have f: "?subs' = filter (\<lambda>a. agent_id a \<noteq> agent_id (idleAgents ! i)) subs"
      using "1.prems" by (rule remove_agent_filter)
    then have "distinct (map agent_id ?subs')"
      using "1.prems" by (simp add: distinct_ids_filter)
    with "1.IH" [OF c] have "remove_loop (Suc i) r idleAgents ?subs' =
       filter (\<lambda>a. agent_id a \<notin> agent_id ` set (drop (Suc i) (take ?m idleAgents))) ?subs'"
      by simp
    moreover have "remove_loop i r idleAgents subs = remove_loop (Suc i) r idleAgents ?subs'"
      by (subst remove_loop.simps) (simp only: c if_True)
    ultimately show ?thesis
      by (auto simp: f d intro!: filter_cong)
  next
    case False
    then have c: "\<not> of_nat i < min r (of_nat (length idleAgents))"
      using rounds_iff [of i r idleAgents] by blast
    have stop: "remove_loop i r idleAgents subs = subs"
      by (subst remove_loop.simps) (simp only: c if_False)
    from False have "drop i (take ?m idleAgents) = []" by simp
    then show ?thesis
      by (simp add: stop)
  qed
qed

lemma recount_simps:
  "boss_agent (recount h) = boss_agent h"
  "subordinate_agents (recount h) = subordinate_agents h"
  "next_agent_id (recount h) = next_agent_id h"
  "total_agents (recount h) = length (subordinate_agents h) + 1"
  by (simp_all add: recount_def Let_def)

lemma map_plus_upt: "map ((+) n) [0..<k] = [n..<n + k]"
  by (induction k) simp_all

lemma auto_agents_ids: "map agent_id (auto_agents clk i n k) = [n..<n + k]"
  by (simp add: auto_agents_def newAgent_def comp_def map_plus_upt)

lemma auto_agents_idle: "a \<in> set (auto_agents clk i n k) \<Longrightarrow> agent_status a = ''idle''"
  by (auto simp: auto_agents_def newAgent_def)

lemma auto_agents_active: "map last_active (auto_agents clk i n k) = map (\<lambda>j. clk (i + j)) [0..<k]"
  by (simp add: auto_agents_def newAgent_def comp_def)

lemma scale_agents_cases:
  assumes "scale_agents clk n h = Some h'"
  obtains
    (add) q where "n = Finite q" "of_nat (length (subordinate_agents h)) < q"
      "h' = recount (add_loop clk 0 (q - of_nat (length (subordinate_agents h))) h)"
  | (remove) r where "n = NegInfinity \<or> (\<exists>q. n = Finite q \<and> q < of_nat (length (subordinate_agents h)))"
      "h' = recount (h\<lparr>subordinate_agents :=
         remove_loop 0 r (filter (\<lambda>a. agent_status a = ''idle'') (subordinate_agents h))
           (subordinate_agents h)\<rparr>)"
  | (same) "n = Finite (of_nat (length (subordinate_agents h)))" "h' = recount h"
  using assms
  by (cases n) (auto simp: scale_agents_def Let_def split: if_splits)

lemma scale_subs:
  assumes "scale_agents clk n h = Some h'" and d: "distinct (map agent_id (subordinate_agents h))"
  shows "boss_agent h' = boss_agent h \<and>
    total_agents h' = length (subordinate_agents h') + 1 \<and>
    ((\<exists>k. subordinate_agents h' = subordinate_agents h @ auto_agents clk 0 (next_agent_id h) k
          \<and> next_agent_id h' = next_agent_id h + k)
     \<or> (\<exists>m. next_agent_id h' = next_agent_id h \<and> subordinate_agents h' =
          filter (\<lambda>a. agent_id a \<notin> agent_id `
            set (take m (filter (\<lambda>a. agent_status a = ''idle'') (subordinate_agents h))))
            (subordinate_agents h)))"
  using assms(1)
proof (cases rule: scale_agents_cases)
  case (add q)
  then show ?thesis
    using add_loop_result [of clk 0 "q - of_nat (length (subordinate_agents h))" h]
    by (auto simp: recount_simps)
next
  case (remove r)
  then show ?thesis
    using remove_loop_filter [OF d, of 0 r "filter (\<lambda>a. agent_status a = ''idle'') (subordinate_agents h)"]
    by (auto simp: recount_simps)
next
  case same
  have "subordinate_agents h = subordinate_agents h @ auto_agents clk 0 (next_agent_id h) 0"
    by (simp add: auto_agents_def)
  with same show ?thesis
    by (auto simp: recount_simps)
qed

lemma take_idle_members:
  assumes d: "distinct (map agent_id subs)" and a: "a \<in> set subs"
  shows "agent_id a \<in> agent_id ` set (take m (filter P subs)) \<longleftrightarrow> a \<in> set (take m (filter P subs))"
proof
  assume "agent_id a \<in> agent_id ` set (take m (filter P subs))"
  then obtain b where b: "b \<in> set (take m (filter P subs))" and eq: "agent_id a = agent_id b"
    by blast
  from b have "b \<in> set subs" by (auto dest: in_set_takeD)
  with d a eq have "a = b" by (auto simp: distinct_map inj_on_def)
  with b show "a \<in> set (take m (filter P subs))" by simp
qed blast

lemma inv_init: "hierarchy_inv (mockAgentHierarchy t)"
  by (simp add: hierarchy_inv_def mockAgentHierarchy_def)

lemma inv_create: "hierarchy_inv h \<Longrightarrow> hierarchy_inv (create_agent nm t h)"
  by (auto simp: hierarchy_inv_def create_agent_def newAgent_def less_Suc_eq)

lemma inv_scale:
  assumes "hierarchy_inv h" "scale_agents clk n h = Some h'"
  shows "hierarchy_inv h'"
proof -
  from assms(1) have d: "distinct (map agent_id (subordinate_agents h))"
    and below: "\<forall>a \<in> set (subordinate_agents h). agent_id a < next_agent_id h"
    and boss: "agent_id (boss_agent h) = 0"
    by (simp_all add: hierarchy_inv_def)
  from scale_subs [OF assms(2) d] have b': "boss_agent h' = boss_agent h"
    and t': "total_agents h' = length (subordinate_agents h') + 1"
    and alt: "(\<exists>k. subordinate_agents h' = subordinate_agents h @ auto_agents clk 0 (next_agent_id h) k
          \<and> next_agent_id h' = next_agent_id h + k)
     \<or> (\<exists>m. next_agent_id h' = next_agent_id h \<and> subordinate_agents h' =
          filter (\<lambda>a. agent_id a \<notin> agent_id `
            set (take m (filter (\<lambda>a. agent_status a = ''idle'') (subordinate_agents h))))
            (subordinate_agents h))"
    by blast+
  from alt show ?thesis
  proof (elim disjE exE conjE)
    fix k
    assume s: "subordinate_agents h' = subordinate_agents h @ auto_agents clk 0 (next_agent_id h) k"
      and n: "next_agent_id h' = next_agent_id h + k"
    have "distinct (map agent_id (subordinate_agents h'))"
      using d below by (auto simp: s auto_agents_ids)
    moreover have "\<forall>a \<in> set (subordinate_agents h'). agent_id a < next_agent_id h'"
    proof
      fix a assume "a \<in> set (subordinate_agents h')"
      then consider "a \<in> set (subordinate_agents h)"
        | "agent_id a \<in> set (map agent_id (auto_agents clk 0 (next_agent_id h) k))"
        by (auto simp: s)
      then show "agent_id a < next_agent_id h'"
      proof cases
        case 1 with below n show ?thesis by fastforce
      next
        case 2 then show ?thesis by (simp add: auto_agents_ids n)
      qed
    qed
    ultimately show ?thesis
      using t' b' boss by (simp add: hierarchy_inv_def)
  next
    fix m
    assume n: "next_agent_id h' = next_agent_id h"
      and s: "subordinate_agents h' =
          filter (\<lambda>a. agent_id a \<notin> agent_id `
            set (take m (filter (\<lambda>a. agent_status a = ''idle'') (subordinate_agents h))))
            (subordinate_agents h)"
    have "distinct (map agent_id (subordinate_agents h'))"
      using d by (simp add: s distinct_ids_filter)
    moreover have "\<forall>a \<in> set (subordinate_agents h'). agent_id a < next_agent_id h'"
      using below by (simp add: s n)
    ultimately show ?thesis
      using t' b' boss by (simp add: hierarchy_inv_def)
  qed
qed

lemma inv_POST:
  assumes "hierarchy_inv h" "POST_hierarchy clk body h = Some (r, h')"
  shows "hierarchy_inv h'"
  using assms
  by (auto simp: POST_hierarchy_def Let_def inv_create inv_scale
      split: hierarchy_body.splits option.splits if_splits)

lemma reachable_inv: "reachable h \<Longrightarrow> hierarchy_inv h"
  by (induction rule: reachable.induct) (auto simp: inv_init intro: inv_POST)

lemma steady_reachable: "reachable_steady h \<Longrightarrow> reachable h"
  by (induction rule: reachable_steady.induct) (auto intro: reachable.intros)

lemma sorted_clock:
  assumes "\<forall>i j. i \<le> j \<longrightarrow> clk i \<le> (clk j :: int)"
  shows "sorted (map (\<lambda>j. clk (i + j)) [0..<k])"
  using assms by (simp add: sorted_iff_nth_mono)

lemma age_init: "idle_by_age (mockAgentHierarchy t)"
  by (simp add: idle_by_age_def mockAgentHierarchy_def)

lemma age_append:
  assumes "idle_by_age h" "steady clk h"
    "subordinate_agents h' = subordinate_agents h @ auto_agents clk 0 n k"
  shows "idle_by_age h'"
proof -
  let ?idle = "\<lambda>a. agent_status a = ''idle''"
  have mono: "\<forall>i j. i \<le> j \<longrightarrow> clk i \<le> clk j"
    and old: "\<forall>a \<in> set (subordinate_agents h). last_active a \<le> clk 0"
    using assms(2) by (simp_all add: steady_def)
  have new: "filter ?idle (auto_agents clk 0 n k) = auto_agents clk 0 n k"
    by (simp add: filter_id_conv auto_agents_idle)
  have "\<forall>x \<in> set (map last_active (filter ?idle (subordinate_agents h))).
        \<forall>y \<in> set (map last_active (auto_agents clk 0 n k)). x \<le> y"
  proof (intro ballI)
    fix x y
    assume "x \<in> set (map last_active (filter ?idle (subordinate_agents h)))"
      and "y \<in> set (map last_active (auto_agents clk 0 n k))"
    then have "x \<le> clk 0" and "\<exists>j. y = clk j"
      using old by (auto simp: auto_agents_active)
    then show "x \<le> y"
      using mono by (metis le0 order_trans)
  qed
  moreover have "sorted (map last_active (auto_agents clk 0 n k))"
    using sorted_clock [OF mono, of 0 k] by (simp add: auto_agents_active)
  ultimately show ?thesis
    using assms(1) by (simp add: idle_by_age_def assms(3) new sorted_append)
qed

lemma age_filter:
  assumes "idle_by_age h" "subordinate_agents h' = filter P (subordinate_agents h)"
  shows "idle_by_age h'"
proof -
  let ?idle = "filter (\<lambda>a. agent_status a = ''idle'') (subordinate_agents h)"
  have "filter (\<lambda>a. agent_status a = ''idle'') (filter P (subordinate_agents h)) = filter P ?idle"
    by (auto intro: filter_cong)
  moreover have "sorted (map last_active (filter P ?idle))"
    using assms(1) unfolding idle_by_age_def by (rule sorted_filter)
  ultimately show ?thesis
    unfolding idle_by_age_def assms(2) by (simp only:)
qed

lemma age_create:
  assumes "idle_by_age h" "steady clk h"
  shows "idle_by_age (create_agent nm (clk 0) h)"
proof -
  have "\<forall>a \<in> set (subordinate_agents h). last_active a \<le> clk 0"
    using assms(2) by (simp add: steady_def)
  then show ?thesis
    using assms(1)
    by (auto simp: idle_by_age_def create_agent_def newAgent_def sorted_append)
qed

lemma age_scale:
  assumes "idle_by_age h" "steady clk h" "hierarchy_inv h" "scale_agents clk n h = Some h'"
  shows "idle_by_age h'"
proof -
  from assms(3) have d: "distinct (map agent_id (subordinate_agents h))"
    by (simp add: hierarchy_inv_def)
  from scale_subs [OF assms(4) d] show ?thesis
    using age_append [OF assms(1,2)] age_filter [OF assms(1)] by blast
qed

lemma age_POST:
  assumes "idle_by_age h" "steady clk h" "hierarchy_inv h" "POST_hierarchy clk body h = Some (r, h')"
  shows "idle_by_age h'"
  using assms
  by (auto simp: POST_hierarchy_def Let_def age_create age_scale
      split: hierarchy_body.splits option.splits if_splits)

lemma steady_age: "reachable_steady h \<Longrightarrow> idle_by_age h"
proof (induction rule: reachable_steady.induct)
  case (steady_init t)
  show ?case by (rule age_init)
next
  case (steady_POST h clk body r h')
  then show ?case
    using age_POST reachable_inv steady_reachable by blast
qed

lemma sorted_take_drop:
  assumes "sorted (map f xs)" "x \<in> set (take m xs)" "y \<in> set (drop m xs)"
  shows "f x \<le> (f y :: int)"
proof -
  have "sorted (map f (take m xs) @ map f (drop m xs))"
    using assms(1) by (simp flip: map_append)
  then show ?thesis
    using assms(2,3) by (auto simp: sorted_append)
qed

lemma rounds_min: "rounds r idleAgents = min (nat \<lceil>r\<rceil>) (length idleAgents)"
proof -
  have "\<lceil>min r (of_nat (length idleAgents))\<rceil> = min \<lceil>r\<rceil> (int (length idleAgents))"
    by (simp add: min_def ceiling_le_iff le_ceiling_iff)
  then show ?thesis
    by (simp add: rounds_def min_def) linarith
qed

lemma distinct_agents: "distinct (map agent_id xs) \<Longrightarrow> distinct xs"
  by (simp add: distinct_map)

lemma length_without_taken:
  assumes d: "distinct (map agent_id subs)" and m: "m \<le> length (filter P subs)"
  shows "length (filter (\<lambda>a. a \<notin> set (take m (filter P subs))) subs) = length subs - m"
proof -
  let ?T = "take m (filter P subs)"
  have ds: "distinct subs" using d by (rule distinct_agents)
  then have dT: "distinct ?T" by simp
  have sub: "set ?T \<subseteq> set subs" by (auto dest: in_set_takeD)
  have "length (filter (\<lambda>a. a \<in> set ?T) subs) = card ({a. a \<in> set ?T} \<inter> set subs)"
    using ds by (rule distinct_length_filter)
  also have "{a. a \<in> set ?T} \<inter> set subs = set ?T" using sub by blast
  also have "card (set ?T) = length ?T" using dT by (rule distinct_card)
  also have "length ?T = m" using m by simp
  finally have "length (filter (\<lambda>a. a \<in> set ?T) subs) = m" .
  moreover have "length (filter (\<lambda>a. a \<in> set ?T) subs)
      + length (filter (\<lambda>a. \<not> a \<in> set ?T) subs) = length subs"
    by (rule sum_length_filter_compl)
  ultimately show ?thesis by simp
qed

lemma scale_down_exact:
  assumes s: "scale_agents clk n h = Some h'" and d: "distinct (map agent_id (subordinate_agents h))"
    and down: "n = NegInfinity \<or> (\<exists>q. n = Finite q \<and> q \<le> of_nat (length (subordinate_agents h)))"
  shows "subordinate_agents h' =
      filter (\<lambda>a. a \<notin> set (take (removals n h)
          (filter (\<lambda>a. agent_status a = ''idle'') (subordinate_agents h))))
        (subordinate_agents h)"
proof -
  let ?subs = "subordinate_agents h"
  let ?idle = "filter (\<lambda>a. agent_status a = ''idle'') ?subs"
  have conv: "\<And>m. filter (\<lambda>a. agent_id a \<notin> agent_id ` set (take m ?idle)) ?subs
     = filter (\<lambda>a. a \<notin> set (take m ?idle)) ?subs"
    using take_idle_members [OF d] by (auto intro!: filter_cong)
  have loop: "\<And>r. remove_loop 0 r ?idle ?subs
      = filter (\<lambda>a. a \<notin> set (take (min (nat \<lceil>r\<rceil>) (length ?idle)) ?idle)) ?subs"
    using remove_loop_filter [OF d, of 0 _ ?idle] by (simp add: conv rounds_min)
  from down show ?thesis
  proof (elim disjE exE conjE)
    assume n: "n = NegInfinity"
    with s have "h' = recount (h\<lparr>subordinate_agents :=
        remove_loop 0 (of_nat (length ?idle)) ?idle ?subs\<rparr>)"
      by (simp add: scale_agents_def Let_def)
    then show ?thesis
      by (simp add: recount_simps loop removals_def n)
  next
    fix q assume n: "n = Finite q" and q: "q \<le> of_nat (length ?subs)"
    show ?thesis
    proof (cases "q < of_nat (length ?subs)")
      case True
      with s n have "h' = recount (h\<lparr>subordinate_agents :=
          remove_loop 0 (of_nat (length ?subs) - q) ?idle ?subs\<rparr>)"
        by (simp add: scale_agents_def Let_def)
      then show ?thesis
        by (simp add: recount_simps loop removals_def n)
    next
      case False
      with q have e: "q = of_nat (length ?subs)" by simp
      with s n have "h' = recount h"
        by (simp add: scale_agents_def Let_def)
      then show ?thesis
        by (simp add: recount_simps removals_def n e)
    qed
  qed
qed

lemma scale_up_exact:
  assumes s: "scale_agents clk n h = Some h'"
    and up: "n = Finite q" "of_nat (length (subordinate_agents h)) < q"
  shows "subordinate_agents h' = subordinate_agents h @
      auto_agents clk 0 (next_agent_id h) (nat \<lceil>q - of_nat (length (subordinate_agents h))\<rceil>)"
proof -
  from s up have "h' = recount (add_loop clk 0 (q - of_nat (length (subordinate_agents h))) h)"
    by (simp add: scale_agents_def Let_def)
  then show ?thesis
    using add_loop_result [of clk 0 "q - of_nat (length (subordinate_agents h))" h]
    by (simp add: recount_simps)
qed

lemma scale_boss:
  assumes "scale_agents clk n h = Some h'"
  shows "boss_agent h' = boss_agent h"
  using assms
proof (cases rule: scale_agents_cases)
  case (add q)
  then show ?thesis
    using add_loop_result [of clk 0 "q - of_nat (length (subordinate_agents h))" h]
    by (simp add: recount_simps)
qed (simp_all add: recount_simps)

lemma scale_direction:
  assumes "scale_agents clk n h = Some h'"
  shows "(\<exists>q. n = Finite q \<and> of_nat (length (subordinate_agents h)) < q)
       \<or> n = NegInfinity \<or> (\<exists>q. n = Finite q \<and> q \<le> of_nat (length (subordinate_agents h)))"
  using assms by (cases n) (auto simp: scale_agents_def)

lemma scale_total:
  assumes "scale_agents clk n h = Some h'"
  shows "total_agents h' = length (subordinate_agents h') + 1"
  using assms by (cases rule: scale_agents_cases) (simp_all add: recount_simps)

lemma count_POST:
  assumes "POST_hierarchy clk body h = Some (r, h')"
    and "total_agents h = length (subordinate_agents h) + 1 \<and> agent_id (boss_agent h) = 0"
  shows "total_agents h' = length (subordinate_agents h') + 1 \<and> agent_id (boss_agent h') = 0"
  using assms
  by (auto simp: POST_hierarchy_def Let_def create_agent_def scale_total scale_boss
      split: hierarchy_body.splits option.splits if_splits)

lemma auto_agents_3:
  "auto_agents clk 0 n 3 =
     [newAgent n (''Auto Agent '' @ decimal n) (clk 0),
      newAgent (n + 1) (''Auto Agent '' @ decimal (n + 1)) (clk 1),
      newAgent (n + 2) (''Auto Agent '' @ decimal (n + 2)) (clk 2)]"
  by (simp add: auto_agents_def numeral_3_eq_3 numeral_2_eq_2 upt_rec)

lemma steady_created:
  "reachable_steady (create_agent ''Helper'' 400000 (mockAgentHierarchy 300000))"
proof -
  let ?h = "mockAgentHierarchy 300000"
  have "steady (\<lambda>i. 400000) ?h"
    by (simp add: steady_def mockAgentHierarchy_def)
  moreover have "POST_hierarchy (\<lambda>i. 400000) (Fields (Some ''create_agent'') (Some ''Helper'') None) ?h
     = Some (Done (CreatedAgent (next_agent_id ?h) ''Helper'') (create_agent ''Helper'' 400000 ?h),
             create_agent ''Helper'' 400000 ?h)"
    by (simp add: POST_hierarchy_def Let_def)
  ultimately show ?thesis
    using steady_POST [OF steady_init] by blast
qed

text \<open>
  Claim C6. In every state the module reaches under a steady clock, and for
  every target, a scaling that returns leaves the boss record as it was and
  keeps every subordinate that is not idle, with its record unchanged; the
  agents it takes out are idle ones, and they are the least recently active of
  the idle ones: none of them was active later than an idle agent that stays.
  (The loop takes the idle agents in list order, which under a steady clock is
  the order of last activity.) A scaling down takes out as many agents as the
  target asks for, or all idle ones when these are fewer. The scaling returns
  for every target but \<^verbatim>\<open>Infinity\<close>.
\<close>

theorem C6_scale_keeps_boss_and_busy:
  "(n \<noteq> PosInfinity \<longrightarrow> (\<exists>h1. scale_agents clk n h = Some h1))
   \<and> (reachable_steady h \<and> scale_agents clk n h = Some h' \<longrightarrow>
     boss_agent h' = boss_agent h
   \<and> (\<forall>a \<in> set (subordinate_agents h).
        agent_status a \<noteq> ''idle'' \<longrightarrow> a \<in> set (subordinate_agents h'))
   \<and> (\<forall>a \<in> set (subordinate_agents h).
        a \<notin> set (subordinate_agents h') \<longrightarrow> agent_status a = ''idle'')
   \<and> (\<forall>r k. r \<in> set (subordinate_agents h) \<and> r \<notin> set (subordinate_agents h')
          \<and> k \<in> set (subordinate_agents h) \<and> k \<in> set (subordinate_agents h')
          \<and> agent_status k = ''idle''
        \<longrightarrow> last_active r \<le> last_active k)
   \<and> (n = NegInfinity \<longrightarrow>
        length (subordinate_agents h') = length (subordinate_agents h)
          - length (filter (\<lambda>a. agent_status a = ''idle'') (subordinate_agents h)))
   \<and> (\<forall>q. n = Finite q \<and> q \<le> of_nat (length (subordinate_agents h)) \<longrightarrow>
        length (subordinate_agents h') = length (subordinate_agents h)
          - min (nat \<lceil>of_nat (length (subordinate_agents h)) - q\<rceil>)
              (length (filter (\<lambda>a. agent_status a = ''idle'') (subordinate_agents h)))))"
proof (rule conjI)
  show "n \<noteq> PosInfinity \<longrightarrow> (\<exists>h1. scale_agents clk n h = Some h1)"
    by (cases n) (simp_all add: scale_agents_def Let_def)
next
  have frame: "reachable_steady h \<and> scale_agents clk n h = Some h' \<longrightarrow>
     boss_agent h' = boss_agent h
   \<and> (\<forall>a \<in> set (subordinate_agents h).
        agent_status a \<noteq> ''idle'' \<longrightarrow> a \<in> set (subordinate_agents h'))
   \<and> (\<forall>a \<in> set (subordinate_agents h).
        a \<notin> set (subordinate_agents h') \<longrightarrow> agent_status a = ''idle'')
   \<and> (\<forall>r k. r \<in> set (subordinate_agents h) \<and> r \<notin> set (subordinate_agents h')
          \<and> k \<in> set (subordinate_agents h) \<and> k \<in> set (subordinate_agents h')
          \<and> agent_status k = ''idle''
        \<longrightarrow> last_active r \<le> last_active k)
   \<and> (n = NegInfinity \<or> (\<exists>q. n = Finite q \<and> q \<le> of_nat (length (subordinate_agents h)))
        \<longrightarrow> length (subordinate_agents h') = length (subordinate_agents h) - removals n h)"
  proof (intro impI, elim conjE)
  assume rs: "reachable_steady h" and s: "scale_agents clk n h = Some h'"
  let ?subs = "subordinate_agents h"
  let ?idle = "filter (\<lambda>a. agent_status a = ''idle'') ?subs"
  have d: "distinct (map agent_id ?subs)"
    using reachable_inv [OF steady_reachable [OF rs]] by (simp add: hierarchy_inv_def)
  have age: "sorted (map last_active ?idle)"
    using steady_age [OF rs] by (simp add: idle_by_age_def)
  have boss: "boss_agent h' = boss_agent h"
    using s by (rule scale_boss)
  have m: "removals n h \<le> length ?idle"
    by (cases n) (simp_all add: removals_def)
  from scale_direction [OF s]
  consider (up) q where "n = Finite q" "of_nat (length ?subs) < q"
    | (down) "n = NegInfinity \<or> (\<exists>q. n = Finite q \<and> q \<le> of_nat (length ?subs))"
    by blast
  then have rest:
    "(\<forall>a \<in> set ?subs. agent_status a \<noteq> ''idle'' \<longrightarrow> a \<in> set (subordinate_agents h'))
   \<and> (\<forall>r k. r \<in> set ?subs \<and> r \<notin> set (subordinate_agents h')
          \<and> k \<in> set ?subs \<and> k \<in> set (subordinate_agents h') \<and> agent_status k = ''idle''
        \<longrightarrow> last_active r \<le> last_active k)
   \<and> (n = NegInfinity \<or> (\<exists>q. n = Finite q \<and> q \<le> of_nat (length ?subs))
        \<longrightarrow> length (subordinate_agents h') = length ?subs - removals n h)"
  proof cases
    case (up q)
    from scale_up_exact [OF s up] up show ?thesis
      by auto
  next
    case down
    let ?T = "take (removals n h) ?idle"
    have eq: "subordinate_agents h' = filter (\<lambda>a. a \<notin> set ?T) ?subs"
      using scale_down_exact [OF s d down] .
    have busy: "\<forall>a \<in> set ?subs. agent_status a \<noteq> ''idle'' \<longrightarrow> a \<in> set (subordinate_agents h')"
      by (auto simp: eq dest: in_set_takeD)
    have pref: "\<forall>r k. r \<in> set ?subs \<and> r \<notin> set (subordinate_agents h')
          \<and> k \<in> set ?subs \<and> k \<in> set (subordinate_agents h') \<and> agent_status k = ''idle''
        \<longrightarrow> last_active r \<le> last_active k"
    proof (intro allI impI, elim conjE)
      fix r k
      assume r: "r \<in> set ?subs" "r \<notin> set (subordinate_agents h')"
        and k: "k \<in> set ?subs" "k \<in> set (subordinate_agents h')" "agent_status k = ''idle''"
      from r have rT: "r \<in> set ?T" by (simp add: eq)
      from k have "k \<in> set ?idle" "k \<notin> set ?T" by (simp_all add: eq)
      then have "k \<in> set (drop (removals n h) ?idle)"
        by (metis Un_iff append_take_drop_id set_append)
      with age rT show "last_active r \<le> last_active k"
        by (rule sorted_take_drop)
    qed
    have "length (subordinate_agents h') = length ?subs - removals n h"
      unfolding eq using d m by (rule length_without_taken)
    with busy pref show ?thesis by blast
  qed
  then have "\<forall>a \<in> set ?subs. a \<notin> set (subordinate_agents h') \<longrightarrow> agent_status a = ''idle''"
    by blast
  with boss rest show "boss_agent h' = boss_agent h
   \<and> (\<forall>a \<in> set ?subs. agent_status a \<noteq> ''idle'' \<longrightarrow> a \<in> set (subordinate_agents h'))
   \<and> (\<forall>a \<in> set ?subs. a \<notin> set (subordinate_agents h') \<longrightarrow> agent_status a = ''idle'')
   \<and> (\<forall>r k. r \<in> set ?subs \<and> r \<notin> set (subordinate_agents h')
          \<and> k \<in> set ?subs \<and> k \<in> set (subordinate_agents h') \<and> agent_status k = ''idle''
        \<longrightarrow> last_active r \<le> last_active k)
   \<and> (n = NegInfinity \<or> (\<exists>q. n = Finite q \<and> q \<le> of_nat (length ?subs))
        \<longrightarrow> length (subordinate_agents h') = length ?subs - removals n h)"
    by blast
  qed
  have r_inf: "n = NegInfinity \<Longrightarrow> removals n h
      = length (filter (\<lambda>a. agent_status a = ''idle'') (subordinate_agents h))"
    by (simp add: removals_def)
  have r_fin: "\<And>q. n = Finite q \<Longrightarrow> removals n h
      = min (nat \<lceil>of_nat (length (subordinate_agents h)) - q\<rceil>)
          (length (filter (\<lambda>a. agent_status a = ''idle'') (subordinate_agents h)))"
    by (simp add: removals_def)
  show "reachable_steady h \<and> scale_agents clk n h = Some h' \<longrightarrow>
     boss_agent h' = boss_agent h
   \<and> (\<forall>a \<in> set (subordinate_agents h).
        agent_status a \<noteq> ''idle'' \<longrightarrow> a \<in> set (subordinate_agents h'))
   \<and> (\<forall>a \<in> set (subordinate_agents h).
        a \<notin> set (subordinate_agents h') \<longrightarrow> agent_status a = ''idle'')
   \<and> (\<forall>r k. r \<in> set (subordinate_agents h) \<and> r \<notin> set (subordinate_agents h')
          \<and> k \<in> set (subordinate_agents h) \<and> k \<in> set (subordinate_agents h')
          \<and> agent_status k = ''idle''
        \<longrightarrow> last_active r \<le> last_active k)
   \<and> (n = NegInfinity \<longrightarrow>
        length (subordinate_agents h') = length (subordinate_agents h)
          - length (filter (\<lambda>a. agent_status a = ''idle'') (subordinate_agents h)))
   \<and> (\<forall>q. n = Finite q \<and> q \<le> of_nat (length (subordinate_agents h)) \<longrightarrow>
        length (subordinate_agents h') = length (subordinate_agents h)
          - min (nat \<lceil>of_nat (length (subordinate_agents h)) - q\<rceil>)
              (length (filter (\<lambda>a. agent_status a = ''idle'') (subordinate_agents h))))"
  proof (intro impI)
    assume a: "reachable_steady h \<and> scale_agents clk n h = Some h'"
    note c = mp [OF frame a]
    note c1 = c [THEN conjunct1]
      and c2 = c [THEN conjunct2, THEN conjunct1]
      and c3 = c [THEN conjunct2, THEN conjunct2, THEN conjunct1]
      and c4 = c [THEN conjunct2, THEN conjunct2, THEN conjunct2, THEN conjunct1]
      and c5 = c [THEN conjunct2, THEN conjunct2, THEN conjunct2, THEN conjunct2]
    have all_idle: "n = NegInfinity \<longrightarrow>
        length (subordinate_agents h') = length (subordinate_agents h)
          - length (filter (\<lambda>a. agent_status a = ''idle'') (subordinate_agents h))"
      using c5 r_inf by simp
    have some: "\<forall>q. n = Finite q \<and> q \<le> of_nat (length (subordinate_agents h)) \<longrightarrow>
        length (subordinate_agents h') = length (subordinate_agents h)
          - min (nat \<lceil>of_nat (length (subordinate_agents h)) - q\<rceil>)
              (length (filter (\<lambda>a. agent_status a = ''idle'') (subordinate_agents h)))"
    proof (intro allI impI)
      fix q assume q: "n = Finite q \<and> q \<le> of_nat (length (subordinate_agents h))"
      then have "length (subordinate_agents h') = length (subordinate_agents h) - removals n h"
        using c5 by blast
      with q show "length (subordinate_agents h') = length (subordinate_agents h)
          - min (nat \<lceil>of_nat (length (subordinate_agents h)) - q\<rceil>)
              (length (filter (\<lambda>a. agent_status a = ''idle'') (subordinate_agents h)))"
        using r_fin [of q] by simp
    qed
    show "boss_agent h' = boss_agent h
   \<and> (\<forall>a \<in> set (subordinate_agents h).
        agent_status a \<noteq> ''idle'' \<longrightarrow> a \<in> set (subordinate_agents h'))
   \<and> (\<forall>a \<in> set (subordinate_agents h).
        a \<notin> set (subordinate_agents h') \<longrightarrow> agent_status a = ''idle'')
   \<and> (\<forall>r k. r \<in> set (subordinate_agents h) \<and> r \<notin> set (subordinate_agents h')
          \<and> k \<in> set (subordinate_agents h) \<and> k \<in> set (subordinate_agents h')
          \<and> agent_status k = ''idle''
        \<longrightarrow> last_active r \<le> last_active k)
   \<and> (n = NegInfinity \<longrightarrow>
        length (subordinate_agents h') = length (subordinate_agents h)
          - length (filter (\<lambda>a. agent_status a = ''idle'') (subordinate_agents h)))
   \<and> (\<forall>q. n = Finite q \<and> q \<le> of_nat (length (subordinate_agents h)) \<longrightarrow>
        length (subordinate_agents h') = length (subordinate_agents h)
          - min (nat \<lceil>of_nat (length (subordinate_agents h)) - q\<rceil>)
              (length (filter (\<lambda>a. agent_status a = ''idle'') (subordinate_agents h))))"
      using c1 c2 c3 c4 all_idle some by (intro conjI)
  qed
qed

text \<open>
  The theorem in the state after one agent was created: the subordinates are
  1 (idle since long), 2 (busy) and 3 (idle, new). Scaling to 2 takes out
  agent 1 and keeps the busy agent 2 and the newer idle agent 3.
\<close>

theorem C6_scale_keeps_boss_and_busy_witness:
  "reachable_steady (create_agent ''Helper'' 400000 (mockAgentHierarchy 300000))
   \<and> (\<exists>h'. scale_agents (\<lambda>i. 500000) (Finite 2)
              (create_agent ''Helper'' 400000 (mockAgentHierarchy 300000)) = Some h'
        \<and> boss_agent h' = boss_agent (mockAgentHierarchy 300000)
        \<and> map agent_id (subordinate_agents (create_agent ''Helper'' 400000 (mockAgentHierarchy 300000)))
            = [1, 2, 3]
        \<and> map agent_id (subordinate_agents h') = [2, 3]
        \<and> length (subordinate_agents h') = 2)"
proof -
  let ?h = "create_agent ''Helper'' 400000 (mockAgentHierarchy 300000)"
  have subs: "map agent_id (subordinate_agents ?h) = [1, 2, 3]"
    by (simp add: create_agent_def mockAgentHierarchy_def newAgent_def)
  have len: "length (subordinate_agents ?h) = 3"
    by (simp add: create_agent_def mockAgentHierarchy_def)
  obtain h' where s: "scale_agents (\<lambda>i. 500000) (Finite 2) ?h = Some h'"
    by (simp add: scale_agents_def Let_def len)
  have rem: "removals (Finite 2) ?h = 1"
    by (simp add: removals_def Let_def len) (simp add: create_agent_def mockAgentHierarchy_def newAgent_def)
  from C6_scale_keeps_boss_and_busy [of "Finite 2" "\<lambda>i. 500000" ?h h'] steady_created s
  have boss: "boss_agent h' = boss_agent ?h"
    and count: "\<forall>q. Finite 2 = Finite q \<and> q \<le> of_nat (length (subordinate_agents ?h)) \<longrightarrow>
        length (subordinate_agents h') = length (subordinate_agents ?h)
          - min (nat \<lceil>of_nat (length (subordinate_agents ?h)) - q\<rceil>)
              (length (filter (\<lambda>a. agent_status a = ''idle'') (subordinate_agents ?h)))"
    by blast+
  have "length (subordinate_agents h') = length (subordinate_agents ?h) - removals (Finite 2) ?h"
    using count by (simp add: removals_def len)
  then have l2: "length (subordinate_agents h') = 2"
    by (simp add: len rem)
  have d: "distinct (map agent_id (subordinate_agents ?h))"
    by (simp add: subs)
  have "map agent_id (subordinate_agents h') = [2, 3]"
    using scale_down_exact [OF s d] rem
    by (simp add: len) (simp add: create_agent_def mockAgentHierarchy_def newAgent_def)
  with steady_created s boss subs l2 show ?thesis
    by (simp add: create_agent_def)
qed

text \<open>
  Claim C7, as the code has it. In a hierarchy with the boss and no
  subordinate, scaling to the target 3 creates exactly three subordinates, idle
  and with the next three ids (the target counts subordinates, the boss is not
  among them, and the records carry no reference to a parent), and
  \<^verbatim>\<open>total_agents\<close> becomes 4; a following scaling to the target 0 takes all
  three out, as all are idle, and leaves the boss alone.
\<close>

theorem C7_scale_to_three_adds_three:
  "subordinate_agents h = [] \<longrightarrow>
     (\<exists>h1 h2.
        scale_agents clk (Finite 3) h = Some h1
      \<and> subordinate_agents h1 =
          [newAgent (next_agent_id h) (''Auto Agent '' @ decimal (next_agent_id h)) (clk 0),
           newAgent (next_agent_id h + 1) (''Auto Agent '' @ decimal (next_agent_id h + 1)) (clk 1),
           newAgent (next_agent_id h + 2) (''Auto Agent '' @ decimal (next_agent_id h + 2)) (clk 2)]
      \<and> (\<forall>a \<in> set (subordinate_agents h1). role a = ''subordinate'' \<and> agent_status a = ''idle'')
      \<and> total_agents h1 = 4
      \<and> boss_agent h1 = boss_agent h
      \<and> scale_agents clk' (Finite 0) h1 = Some h2
      \<and> subordinate_agents h2 = []
      \<and> total_agents h2 = 1
      \<and> boss_agent h2 = boss_agent h)"
proof
  assume empty: "subordinate_agents h = []"
  let ?n = "next_agent_id h"
  let ?new = "[newAgent ?n (''Auto Agent '' @ decimal ?n) (clk 0),
           newAgent (?n + 1) (''Auto Agent '' @ decimal (?n + 1)) (clk 1),
           newAgent (?n + 2) (''Auto Agent '' @ decimal (?n + 2)) (clk 2)]"
  obtain h1 where s1: "scale_agents clk (Finite 3) h = Some h1"
    by (simp add: scale_agents_def Let_def empty)
  have subs1: "subordinate_agents h1 = ?new"
    using scale_up_exact [OF s1, of 3] by (simp add: empty auto_agents_3)
  have idle1: "\<forall>a \<in> set (subordinate_agents h1). role a = ''subordinate'' \<and> agent_status a = ''idle''"
    by (simp add: subs1 newAgent_def)
  have total1: "total_agents h1 = 4"
    using scale_total [OF s1] by (simp add: subs1)
  have boss1: "boss_agent h1 = boss_agent h"
    using s1 by (rule scale_boss)
  obtain h2 where s2: "scale_agents clk' (Finite 0) h1 = Some h2"
    by (simp add: scale_agents_def Let_def subs1)
  have d1: "distinct (map agent_id (subordinate_agents h1))"
    by (simp add: subs1 newAgent_def)
  have all_idle: "filter (\<lambda>a. agent_status a = ''idle'') (subordinate_agents h1) = subordinate_agents h1"
    using idle1 by (simp add: filter_id_conv)
  have "removals (Finite 0) h1 = 3"
    by (simp add: removals_def Let_def all_idle) (simp add: subs1)
  then have subs2: "subordinate_agents h2 = []"
    using scale_down_exact [OF s2 d1] by (simp add: all_idle) (simp add: subs1)
  have total2: "total_agents h2 = 1"
    using scale_total [OF s2] by (simp add: subs2)
  have boss2: "boss_agent h2 = boss_agent h"
    using scale_boss [OF s2] boss1 by simp
  from s1 subs1 idle1 total1 boss1 s2 subs2 total2 boss2
  show "\<exists>h1 h2.
        scale_agents clk (Finite 3) h = Some h1
      \<and> subordinate_agents h1 = ?new
      \<and> (\<forall>a \<in> set (subordinate_agents h1). role a = ''subordinate'' \<and> agent_status a = ''idle'')
      \<and> total_agents h1 = 4
      \<and> boss_agent h1 = boss_agent h
      \<and> scale_agents clk' (Finite 0) h1 = Some h2
      \<and> subordinate_agents h2 = []
      \<and> total_agents h2 = 1
      \<and> boss_agent h2 = boss_agent h"
    by blast
qed

text \<open>The theorem at the mock hierarchy without its two subordinates.\<close>

theorem C7_scale_to_three_adds_three_witness:
  "\<exists>h1 h2.
     scale_agents (\<lambda>i. 7) (Finite 3)
       ((mockAgentHierarchy 0)\<lparr>subordinate_agents := [], total_agents := 1\<rparr>) = Some h1
   \<and> map agent_id (subordinate_agents h1) = [3, 4, 5]
   \<and> map display_name (subordinate_agents h1) = [''Agent 3'', ''Agent 4'', ''Agent 5'']
   \<and> total_agents h1 = 4
   \<and> scale_agents (\<lambda>i. 9) (Finite 0) h1 = Some h2
   \<and> subordinate_agents h2 = []
   \<and> total_agents h2 = 1"
proof -
  let ?h = "(mockAgentHierarchy 0)\<lparr>subordinate_agents := [], total_agents := 1\<rparr>"
  have e: "subordinate_agents ?h = []" by simp
  have n: "next_agent_id ?h = 3" by (simp add: mockAgentHierarchy_def)
  from C7_scale_to_three_adds_three [of ?h "\<lambda>i. 7" "\<lambda>i. 9"] e
  obtain h1 h2 where s1: "scale_agents (\<lambda>i. 7) (Finite 3) ?h = Some h1"
    and subs1: "subordinate_agents h1 =
          [newAgent (next_agent_id ?h) (''Auto Agent '' @ decimal (next_agent_id ?h)) 7,
           newAgent (next_agent_id ?h + 1) (''Auto Agent '' @ decimal (next_agent_id ?h + 1)) 7,
           newAgent (next_agent_id ?h + 2) (''Auto Agent '' @ decimal (next_agent_id ?h + 2)) 7]"
    and t1: "total_agents h1 = 4"
    and s2: "scale_agents (\<lambda>i. 9) (Finite 0) h1 = Some h2"
    and subs2: "subordinate_agents h2 = []" and t2: "total_agents h2 = 1"
    by blast
  have "map agent_id (subordinate_agents h1) = [3, 4, 5]"
    "map display_name (subordinate_agents h1) = [''Agent 3'', ''Agent 4'', ''Agent 5'']"
    unfolding subs1 n by (simp_all add: newAgent_def decimal.simps digit_def)
  with s1 t1 s2 subs2 t2 have
    "scale_agents (\<lambda>i. 7) (Finite 3) ?h = Some h1
   \<and> map agent_id (subordinate_agents h1) = [3, 4, 5]
   \<and> map display_name (subordinate_agents h1) = [''Agent 3'', ''Agent 4'', ''Agent 5'']
   \<and> total_agents h1 = 4
   \<and> scale_agents (\<lambda>i. 9) (Finite 0) h1 = Some h2
   \<and> subordinate_agents h2 = []
   \<and> total_agents h2 = 1"
    by simp
  then show ?thesis
    by (intro exI)
qed

text \<open>
  Against claim C7 as stated: from the boss alone, scaling to the target 3
  gives three subordinates and a counter of 4, not two and 3.
\<close>

theorem C7_counterexample:
  "map_option (\<lambda>h. (length (subordinate_agents h), total_agents h))
     (scale_agents (\<lambda>i. 7) (Finite 3)
        ((mockAgentHierarchy 0)\<lparr>subordinate_agents := [], total_agents := 1\<rparr>))
   = Some (3, 4)"
proof -
  let ?h = "(mockAgentHierarchy 0)\<lparr>subordinate_agents := [], total_agents := 1\<rparr>"
  obtain h1 where s1: "scale_agents (\<lambda>i. 7) (Finite 3) ?h = Some h1"
    by (simp add: scale_agents_def Let_def)
  have "length (subordinate_agents h1) = 3"
    using scale_up_exact [OF s1, of 3] by (simp add: auto_agents_def)
  moreover have "total_agents h1 = 4"
    using scale_total [OF s1] calculation by simp
  ultimately show ?thesis
    unfolding s1 by simp
qed

text \<open>
  Claim C9. \<^verbatim>\<open>total_agents\<close> is the number of subordinate records plus one
  for the boss, and the boss has the id 0: in the initial state, after every
  request that returns (creation, scaling up or down, or a rejected request)
  when it held before, and so in every reachable state. Every request returns
  but a scaling to the target \<^verbatim>\<open>Infinity\<close>.
\<close>

theorem C9_total_agents_counts_records:
  "(total_agents (mockAgentHierarchy t) = length (subordinate_agents (mockAgentHierarchy t)) + 1
     \<and> agent_id (boss_agent (mockAgentHierarchy t)) = 0)
   \<and> (POST_hierarchy clk body h = Some (r, h')
        \<and> total_agents h = length (subordinate_agents h) + 1 \<and> agent_id (boss_agent h) = 0
      \<longrightarrow> total_agents h' = length (subordinate_agents h') + 1 \<and> agent_id (boss_agent h') = 0)
   \<and> (reachable h \<longrightarrow>
        total_agents h = length (subordinate_agents h) + 1 \<and> agent_id (boss_agent h) = 0)
   \<and> ((\<forall>nm. body \<noteq> Fields (Some ''scale_agents'') nm (Some PosInfinity)) \<longrightarrow>
        (\<exists>r1 h1. POST_hierarchy clk body h = Some (r1, h1)))"
proof (intro conjI impI)
  assume finite: "\<forall>nm. body \<noteq> Fields (Some ''scale_agents'') nm (Some PosInfinity)"
  show "\<exists>r1 h1. POST_hierarchy clk body h = Some (r1, h1)"
  proof (cases body)
    case NoFields
    then show ?thesis by (simp add: POST_hierarchy_def)
  next
    case (Fields act nm tc)
    show ?thesis
    proof (cases "act = Some ''scale_agents'' \<and> tc \<noteq> None")
      case True
      then obtain n where tc: "tc = Some n" by blast
      with True Fields finite have "n \<noteq> PosInfinity" by blast
      then have "\<exists>h1. scale_agents clk n h = Some h1"
        by (cases n) (simp_all add: scale_agents_def Let_def)
      then obtain h1 where "scale_agents clk n h = Some h1"
        by blast
      with True tc Fields show ?thesis
        by (simp add: POST_hierarchy_def)
    next
      case False
      with Fields show ?thesis
        by (auto simp: POST_hierarchy_def Let_def split: option.splits)
    qed
  qed
next
  show "total_agents (mockAgentHierarchy t) = length (subordinate_agents (mockAgentHierarchy t)) + 1"
    "agent_id (boss_agent (mockAgentHierarchy t)) = 0"
    by (simp_all add: mockAgentHierarchy_def)
next
  assume a: "POST_hierarchy clk body h = Some (r, h')
        \<and> total_agents h = length (subordinate_agents h) + 1 \<and> agent_id (boss_agent h) = 0"
  then show "total_agents h' = length (subordinate_agents h') + 1" "agent_id (boss_agent h') = 0"
    using count_POST [of clk body h r h'] by simp_all
next
  assume "reachable h"
  then show "total_agents h = length (subordinate_agents h) + 1" "agent_id (boss_agent h) = 0"
    using reachable_inv [of h] by (simp_all add: hierarchy_inv_def)
qed

text \<open>
  The theorem at the creation of an agent in the initial state: three
  subordinates, a counter of 4.
\<close>

theorem C9_total_agents_counts_records_witness:
  "POST_hierarchy (\<lambda>i. 5) (Fields (Some ''create_agent'') (Some ''Helper'') None)
     (mockAgentHierarchy 0)
     = Some (Done (CreatedAgent 3 ''Helper'') (create_agent ''Helper'' 5 (mockAgentHierarchy 0)),
             create_agent ''Helper'' 5 (mockAgentHierarchy 0))
   \<and> total_agents (mockAgentHierarchy 0) = 3
   \<and> total_agents (create_agent ''Helper'' 5 (mockAgentHierarchy 0)) = 4
   \<and> length (subordinate_agents (create_agent ''Helper'' 5 (mockAgentHierarchy 0))) = 3
   \<and> agent_id (boss_agent (create_agent ''Helper'' 5 (mockAgentHierarchy 0))) = 0"
proof -
  let ?h = "mockAgentHierarchy 0" and ?h' = "create_agent ''Helper'' 5 (mockAgentHierarchy 0)"
  have post: "POST_hierarchy (\<lambda>i. 5) (Fields (Some ''create_agent'') (Some ''Helper'') None) ?h
     = Some (Done (CreatedAgent 3 ''Helper'') ?h', ?h')"
    by (simp add: POST_hierarchy_def Let_def) (simp add: mockAgentHierarchy_def)
  have len: "length (subordinate_agents ?h') = 3"
    by (simp add: create_agent_def mockAgentHierarchy_def)
  from C9_total_agents_counts_records
    [of 0 "\<lambda>i. 5" "Fields (Some ''create_agent'') (Some ''Helper'') None" ?h
        "Done (CreatedAgent 3 ''Helper'') ?h'" ?h'] post
  have "total_agents ?h = length (subordinate_agents ?h) + 1"
    and "total_agents ?h' = length (subordinate_agents ?h') + 1 \<and> agent_id (boss_agent ?h') = 0"
    by blast+
  then show ?thesis
    using post len by (simp add: mockAgentHierarchy_def)
qed

end
